theory Spec2Isabelle
  imports Main
begin

section \<open>Python strings\<close>

text \<open>
  A Python \<open>str\<close> is modelled as a \<open>string\<close> (a list of characters whose code points are
  below 256). The helpers follow \<open>str.strip\<close>, \<open>str.split(sep)\<close>, \<open>sep.join\<close> and
  \<open>str.startswith\<close> for a separator of one character.
\<close>

definition py_isspace :: "char \<Rightarrow> bool" where
  "py_isspace c \<longleftrightarrow> c \<in> {CHR 0x09, CHR 0x0A, CHR 0x0B, CHR 0x0C, CHR 0x0D,
                         CHR 0x1C, CHR 0x1D, CHR 0x1E, CHR 0x1F, CHR 0x20, CHR 0x85, CHR 0xA0}"

definition lstrip :: "string \<Rightarrow> string" where
  "lstrip s = dropWhile py_isspace s"

definition rstrip :: "string \<Rightarrow> string" where
  "rstrip s = rev (dropWhile py_isspace (rev s))"

definition strip :: "string \<Rightarrow> string" where
  "strip s = rstrip (lstrip s)"

function split_on :: "char \<Rightarrow> string \<Rightarrow> string list" where
  "split_on sep s =
     takeWhile (\<lambda>c. c \<noteq> sep) s
     # (case dropWhile (\<lambda>c. c \<noteq> sep) s of [] \<Rightarrow> [] | c # rest \<Rightarrow> split_on sep rest)"
  by pat_completeness auto
termination
proof (relation "measure (\<lambda>(sep, s). length s)")
  show "wf (measure (\<lambda>(sep, s). length s))" by simp
next
  fix sep :: char and s :: string and c rest
  assume "dropWhile (\<lambda>c. c \<noteq> sep) s = c # rest"
  then have "Suc (length rest) = length (dropWhile (\<lambda>c. c \<noteq> sep) s)" by simp
  also have "\<dots> \<le> length s" by (rule length_dropWhile_le)
  finally show "((sep, rest), (sep, s)) \<in> measure (\<lambda>(sep, s). length s)" by simp
qed

declare split_on.simps [simp del]

lemma split_on_Nil [simp]: "split_on sep [] = [[]]"
  by (simp add: split_on.simps)

lemma split_on_Cons [simp]:
  "split_on sep (c # cs) =
     (if c = sep then [] # split_on sep cs
      else (c # hd (split_on sep cs)) # tl (split_on sep cs))"
proof (cases "c = sep")
  case True
  then show ?thesis by (subst split_on.simps) simp
next
  case False
  have "split_on sep cs
        = takeWhile (\<lambda>c. c \<noteq> sep) cs
          # (case dropWhile (\<lambda>c. c \<noteq> sep) cs of [] \<Rightarrow> [] | c # rest \<Rightarrow> split_on sep rest)"
    by (rule split_on.simps)
  then have "hd (split_on sep cs) = takeWhile (\<lambda>c. c \<noteq> sep) cs"
    and "tl (split_on sep cs)
         = (case dropWhile (\<lambda>c. c \<noteq> sep) cs of [] \<Rightarrow> [] | c # rest \<Rightarrow> split_on sep rest)"
    by simp_all
  with False show ?thesis by (subst split_on.simps) simp
qed

fun join :: "char \<Rightarrow> string list \<Rightarrow> string" where
  "join sep [] = []"
| "join sep [x] = x"
| "join sep (x # y # ys) = x @ sep # join sep (y # ys)"

fun startswith :: "string \<Rightarrow> string \<Rightarrow> bool" where
  "startswith s [] = True"
| "startswith [] (p # ps) = False"
| "startswith (c # cs) (p # ps) = (c = p \<and> startswith cs ps)"

section \<open>Errors\<close>

text \<open>
  Every exception the pipeline can raise is a value. \<open>ThemeNotSupported\<close> is the
  \<open>ValueError\<close> of \<open>load_theme_colors\<close>; \<open>UnpackError\<close> is the \<open>ValueError\<close>
  of \<open>attr, value = style.split(":")\<close>; \<open>NoneDereference\<close> is the \<open>AttributeError\<close>
  of \<open>marker_element.get\<close> on \<open>None\<close>; \<open>IndexError\<close> is that of
  \<open>list(classes)[0].split('-')[1]\<close>. \<open>PathSyntaxError\<close> is the
  \<open>SyntaxError\<close> that the ElementPath library raises for an expression it cannot read.
  One library behaviour is not followed further and ends a run of the model with a value
  of its own: \<open>TemplateEscape\<close> (the replacement string handed to \<open>re.sub\<close> contains a
  backslash, so the library expands it as a template).
\<close>

datatype error =
    ThemeNotSupported string
  | UnpackError
  | NoneDereference
  | IndexError
  | TemplateEscape
  | PathSyntaxError

section \<open>Theme colors and the color mapping\<close>

text \<open>
  The two \<open>.ini\<close> files arrive parsed: a section is the list of its \<open>items()\<close>, a
  configuration is the list of its sections in iteration order.
\<close>

type_synonym items = "(string \<times> string) list"
type_synonym config = "(string \<times> items) list"

definition hash_values :: "items \<Rightarrow> items" where
  \<comment> \<open>\<open>{key: f"#{value}" for key, value in config[theme].items()}\<close>\<close>
  "hash_values its = map (\<lambda>(key, val). (key, CHR ''#'' # val)) its"

definition load_theme_colors :: "config \<Rightarrow> string \<Rightarrow> error + items" where
  "load_theme_colors cfg theme =
     (case map_of cfg theme of
        None \<Rightarrow> Inl (ThemeNotSupported theme)
      | Some its \<Rightarrow> Inr (hash_values its))"

definition load_theme_colors_all :: "config \<Rightarrow> (string \<times> items) list" where
  \<comment> \<open>the call with \<open>theme = None\<close>\<close>
  "load_theme_colors_all cfg = map (\<lambda>(theme, its). (theme, hash_values its)) cfg"

definition reverse_entry :: "string \<times> string \<Rightarrow> (string \<rightharpoonup> string) \<Rightarrow> (string \<rightharpoonup> string)" where
  \<comment> \<open>the entry \<open>f"#{value}": key\<close> of one item \<open>(key, value)\<close>\<close>
  "reverse_entry p m = m(CHR ''#'' # snd p \<mapsto> fst p)"

definition reverse_update :: "items \<Rightarrow> (string \<rightharpoonup> string) \<Rightarrow> (string \<rightharpoonup> string)" where
  \<comment> \<open>\<open>color_mapping.update({f"#{value}": key for key, value in colors.items()})\<close>\<close>
  "reverse_update colors m = fold reverse_entry colors m"

definition load_color_mapping :: "items \<Rightarrow> config \<Rightarrow> (string \<rightharpoonup> string)" where
  "load_color_mapping base cfg =
     fold (\<lambda>p m. reverse_update (snd p) m) (load_theme_colors_all cfg) (map_of base)"

section \<open>The document tree\<close>

text \<open>
  The tree is the list of its elements in document order, each with its depth; the head
  of the list is the root (depth 0) and the elements of depth 1 are the root's children.
  The stages of the pipeline only read and write attributes and the text of the style
  element, and traverse in document order. An attribute dictionary is an association
  list in insertion order with distinct keys.
\<close>

record node =
  tag :: string
  attrib :: "(string \<times> string) list"
  el_text :: "string option"
  depth :: nat

definition attr_get :: "node \<Rightarrow> string \<Rightarrow> string option" where
  "attr_get el k = map_of (attrib el) k"

fun alist_set :: "string \<Rightarrow> string \<Rightarrow> (string \<times> string) list \<Rightarrow> (string \<times> string) list" where
  "alist_set k v [] = [(k, v)]"
| "alist_set k v (p # ps) = (if fst p = k then (k, v) # ps else p # alist_set k v ps)"

definition attr_set :: "string \<Rightarrow> string \<Rightarrow> node \<Rightarrow> node" where
  "attr_set k v el = el\<lparr>attrib := alist_set k v (attrib el)\<rparr>"

definition attr_del :: "string \<Rightarrow> node \<Rightarrow> node" where
  "attr_del k el = el\<lparr>attrib := filter (\<lambda>p. fst p \<noteq> k) (attrib el)\<rparr>"

fun first_index :: "('a \<Rightarrow> bool) \<Rightarrow> 'a list \<Rightarrow> nat option" where
  "first_index P [] = None"
| "first_index P (x # xs) = (if P x then Some 0 else map_option Suc (first_index P xs))"

section \<open>Regular expressions of the Style-Block Manager\<close>

text \<open>
  Each pattern of the source is a matcher that, applied at the start of a string, returns
  what the match leaves of it. \<open>any_char\<close> is \<open>.\<close> (every character but the newline),
  \<open>lit\<close> a literal, \<open>is_alnum\<close> the class \<open>[a-zA-Z0-9]\<close>, \<open>is_hex\<close> the class
  \<open>[a-fA-F0-9]\<close>.
\<close>

definition is_alnum :: "char \<Rightarrow> bool" where
  "is_alnum c \<longleftrightarrow> (let n = of_char c :: nat in
      (97 \<le> n \<and> n \<le> 122) \<or> (65 \<le> n \<and> n \<le> 90) \<or> (48 \<le> n \<and> n \<le> 57))"

definition is_hex :: "char \<Rightarrow> bool" where
  "is_hex c \<longleftrightarrow> (let n = of_char c :: nat in
      (97 \<le> n \<and> n \<le> 102) \<or> (65 \<le> n \<and> n \<le> 70) \<or> (48 \<le> n \<and> n \<le> 57))"

definition any_char :: "string \<Rightarrow> string option" where
  "any_char s = (case s of [] \<Rightarrow> None | c # cs \<Rightarrow> if c = CHR 0x0A then None else Some cs)"

definition lit :: "string \<Rightarrow> string \<Rightarrow> string option" where
  "lit p s = (if startswith s p then Some (drop (length p) s) else None)"

definition rule_type_alt :: "string \<Rightarrow> (string \<times> string) option" where
  \<comment> \<open>\<open>(?P<rule_type>(fill|stroke))\<close>: the alternatives start with different letters,
      so at most one of them matches and backtracking into the other cannot succeed\<close>
  "rule_type_alt s =
     (if startswith s ''fill'' then Some (''fill'', drop 4 s)
      else if startswith s ''stroke'' then Some (''stroke'', drop 6 s)
      else None)"

definition hex3 :: "string \<Rightarrow> string option" where
  \<comment> \<open>\<open>[a-fA-F0-9]{3}\<close>\<close>
  "hex3 s = (if length (take 3 s) = 3 \<and> list_all is_hex (take 3 s) then Some (drop 3 s) else None)"

definition hex_tail :: "string \<Rightarrow> string option" where
  \<comment> \<open>\<open>[a-fA-F0-9]{3}([a-fA-F0-9]{3})?;}\<close>: the optional group is greedy; when the
      rest fails after it, the match is tried again without it\<close>
  "hex_tail s =
     (case hex3 s of
        None \<Rightarrow> None
      | Some r \<Rightarrow>
          (case hex3 r of
             None \<Rightarrow> lit '';}'' r
           | Some r' \<Rightarrow> (case lit '';}'' r' of Some rest \<Rightarrow> Some rest | None \<Rightarrow> lit '';}'' r)))"

definition match_css :: "string \<Rightarrow> (string \<times> string \<times> string) option" where
  \<comment> \<open>\<open>css_pattern\<close> at the start of the string: the rule type, the color name and the
      rest of the string. \<open>[a-zA-Z0-9]+\<close> takes the longest run: a shorter one is
      followed by a character of the class, where the pattern goes on with a space.\<close>
  "match_css s =
     Option.bind (any_char s) (\<lambda>s1.
     Option.bind (rule_type_alt s1) (\<lambda>(rule_type, s2).
     Option.bind (lit ''-'' s2) (\<lambda>s3.
       let color_name = takeWhile is_alnum s3 in
       if color_name = [] then None
       else
     Option.bind (lit '' {'' (dropWhile is_alnum s3)) (\<lambda>s5.
     Option.bind (lit rule_type s5) (\<lambda>s6.
     Option.bind (lit '':#'' s6) (\<lambda>s7.
     Option.bind (hex_tail s7) (\<lambda>rest. Some (rule_type, color_name, rest))))))))"

definition hex_three :: "string \<Rightarrow> string option" where
  \<comment> \<open>\<open>[a-fA-F0-9]3\<close>: one hexadecimal digit and the character 3\<close>
  "hex_three s =
     (case s of h # c # r \<Rightarrow> if is_hex h \<and> c = CHR ''3'' then Some r else None | _ \<Rightarrow> None)"

definition hex_three_tail :: "string \<Rightarrow> string option" where
  \<comment> \<open>\<open>([a-fA-F0-9]3([a-fA-F0-9]3)?);}\<close>\<close>
  "hex_three_tail s =
     (case hex_three s of
        None \<Rightarrow> None
      | Some r \<Rightarrow>
          (case hex_three r of
             None \<Rightarrow> lit '';}'' r
           | Some r' \<Rightarrow> (case lit '';}'' r' of Some rest \<Rightarrow> Some rest | None \<Rightarrow> lit '';}'' r)))"

definition match_sub :: "string \<Rightarrow> string \<Rightarrow> string \<Rightarrow> string option" where
  \<comment> \<open>The pattern of the \<open>re.sub\<close> call. It is a format string that is not raw: \<open>\1\<close> is
      the character with code 1, each \<open>{3}\<close> is the replacement field of the number 3
      and each doubled brace is one brace, so the pattern is
      \<open>.<rule_type>-<color_name> {\<close>, the character 1, \<open>:#([a-fA-F0-9]3([a-fA-F0-9]3)?);}\<close>.\<close>
  "match_sub rule_type color_name s =
     Option.bind (any_char s) (\<lambda>s1.
     Option.bind (lit (rule_type @ ''-'' @ color_name @ '' {'' @ [CHR 0x01] @ '':#'') s1)
       hex_three_tail)"

lemma startswith_append: "startswith s p \<Longrightarrow> \<exists>r. s = p @ r"
  by (induction s p rule: startswith.induct) auto

lemma lit_Some: "lit p s = Some r \<Longrightarrow> s = p @ r"
  using startswith_append by (fastforce simp: lit_def split: if_splits)

lemma lit_length: "lit p s = Some r \<Longrightarrow> length r \<le> length s"
  by (auto dest: lit_Some)

lemma any_char_Some: "any_char s = Some r \<Longrightarrow> \<exists>c. c \<noteq> CHR 0x0A \<and> s = c # r"
  by (auto simp: any_char_def split: list.splits if_splits)

lemma hex3_length: "hex3 s = Some r \<Longrightarrow> length r \<le> length s"
  by (auto simp: hex3_def split: if_splits)

lemma hex_tail_length: "hex_tail s = Some r \<Longrightarrow> length r \<le> length s"
  by (fastforce simp: hex_tail_def split: option.splits dest: hex3_length lit_length)

lemma hex_three_length: "hex_three s = Some r \<Longrightarrow> length r \<le> length s"
  by (auto simp: hex_three_def split: list.splits if_splits)

lemma hex_three_tail_length: "hex_three_tail s = Some r \<Longrightarrow> length r \<le> length s"
  by (fastforce simp: hex_three_tail_def split: option.splits dest: hex_three_length lit_length)

lemma rule_type_alt_length: "rule_type_alt s = Some (t, r) \<Longrightarrow> length r \<le> length s"
  by (auto simp: rule_type_alt_def split: if_splits)

lemma match_css_length:
  assumes "match_css s = Some (t, n, r)"
  shows "length r < length s"
proof -
  from assms obtain s1 s2 s3 s5 s6 s7 where
    a: "any_char s = Some s1" and b: "rule_type_alt s1 = Some (t, s2)" and c: "lit ''-'' s2 = Some s3"
    and d: "lit '' {'' (dropWhile is_alnum s3) = Some s5" and e: "lit t s5 = Some s6"
    and f: "lit '':#'' s6 = Some s7" and g: "hex_tail s7 = Some r"
    by (auto simp: match_css_def Let_def Option.bind_eq_Some_conv split: if_splits)
  have "length (dropWhile is_alnum s3) \<le> length s3"
    by (rule length_dropWhile_le)
  with a b c d e f g show ?thesis
    using any_char_Some[OF a] rule_type_alt_length[OF b] lit_length[OF c] lit_length[OF d]
      lit_length[OF e] lit_length[OF f] hex_tail_length[OF g]
    by auto
qed

lemma match_sub_length:
  assumes "match_sub t n s = Some r"
  shows "length r < length s"
proof -
  from assms obtain s1 s2 where a: "any_char s = Some s1"
    and b: "lit (t @ ''-'' @ n @ '' {'' @ [CHR 0x01] @ '':#'') s1 = Some s2"
    and c: "hex_three_tail s2 = Some r"
    by (auto simp: match_sub_def Option.bind_eq_Some_conv)
  show ?thesis
    using any_char_Some[OF a] lit_length[OF b] hex_three_tail_length[OF c] by auto
qed

function finditer_css :: "string \<Rightarrow> (string \<times> string) list" where
  "finditer_css [] = []"
| "finditer_css (c # cs) =
     (case match_css (c # cs) of
        Some (rule_type, color_name, rest) \<Rightarrow> (rule_type, color_name) # finditer_css rest
      | None \<Rightarrow> finditer_css cs)"
  by pat_completeness auto
termination
  by (relation "measure length") (auto dest: match_css_length)

function re_sub :: "string \<Rightarrow> string \<Rightarrow> string \<Rightarrow> string \<Rightarrow> string" where
  "re_sub rule_type color_name repl [] = []"
| "re_sub rule_type color_name repl (c # cs) =
     (case match_sub rule_type color_name (c # cs) of
        Some rest \<Rightarrow> repl @ re_sub rule_type color_name repl rest
      | None \<Rightarrow> c # re_sub rule_type color_name repl cs)"
  by pat_completeness auto
termination
  by (relation "measure (\<lambda>(t, n, r, s). length s)") (auto dest: match_sub_length)

section \<open>The Style-Block Manager\<close>

definition namespace_uri :: "string \<Rightarrow> string" where
  \<comment> \<open>\<open>re.match(r'\{.*\}', element.tag)\<close>, its group 0 or the empty string: the tag from
      its opening brace to the last closing brace before any newline\<close>
  "namespace_uri t =
     (case t of
        [] \<Rightarrow> []
      | c # cs \<Rightarrow>
          (let line = takeWhile (\<lambda>x. x \<noteq> CHR 0x0A) cs in
           if c = CHR ''{'' \<and> CHR ''}'' \<in> set line
           then c # rev (dropWhile (\<lambda>x. x \<noteq> CHR ''}'') (rev line))
           else []))"

definition find_child :: "string \<Rightarrow> node list \<Rightarrow> nat option" where
  \<comment> \<open>\<open>root.find(style_tag)\<close>: the first child of the root with that tag\<close>
  "find_child t doc = map_option Suc (first_index (\<lambda>el. depth el = 1 \<and> tag el = t) (tl doc))"

definition get_style_element :: "node list \<Rightarrow> nat \<times> node list" where
  \<comment> \<open>the position of the style element and the tree, with a new style element as the
      root's first child when it had none\<close>
  "get_style_element doc =
     (let style_tag = namespace_uri (tag (hd doc)) @ ''style'' in
      case find_child style_tag doc of
        Some i \<Rightarrow> (i, doc)
      | None \<Rightarrow>
          (1, hd doc
              # \<lparr>tag = style_tag, attrib = [(''type'', ''text/css'')], el_text = Some [], depth = 1\<rparr>
              # tl doc))"

definition py_str :: "string option \<Rightarrow> string" where
  \<comment> \<open>\<open>str(style_element.text)\<close>\<close>
  "py_str t = (case t of None \<Rightarrow> ''None'' | Some s \<Rightarrow> s)"

definition rule_text :: "string \<Rightarrow> string \<Rightarrow> string \<Rightarrow> string" where
  \<comment> \<open>\<open>f".{rule_type}-{color_name} {{{rule_type}:{new_color};}}"\<close>\<close>
  "rule_text rule_type color_name new_color =
     ''.'' @ rule_type @ ''-'' @ color_name @ '' {'' @ rule_type @ '':'' @ new_color @ '';}''"

fun update_rules :: "items \<Rightarrow> (string \<times> string) list \<Rightarrow> string \<times> string list
                      \<Rightarrow> error + string \<times> string list" where
  \<comment> \<open>the loop over the matches; the state is \<open>style_content\<close> and \<open>updated_colors\<close>\<close>
  "update_rules new_colors [] st = Inr st"
| "update_rules new_colors ((rule_type, color_name) # ms) (style_content, updated_colors) =
     (case map_of new_colors color_name of
        None \<Rightarrow> update_rules new_colors ms (style_content, updated_colors)
      | Some new_color \<Rightarrow>
          (let repl = rule_text rule_type color_name new_color in
           if CHR 0x5C \<in> set repl then Inl TemplateEscape
           else update_rules new_colors ms
                  (re_sub rule_type color_name repl style_content,
                   List.insert color_name updated_colors)))"

definition new_rules :: "string \<Rightarrow> string \<Rightarrow> string" where
  \<comment> \<open>the two rules appended for a color that no rule of the style text names\<close>
  "new_rules color_name color_value =
     CHR 0x0A # ''        .fill-'' @ color_name @ '' {fill:'' @ color_value @ '';}''
     @ CHR 0x0A # ''        .stroke-'' @ color_name @ '' {stroke:'' @ color_value @ '';}''"

fun append_rules :: "items \<Rightarrow> string list \<Rightarrow> string \<Rightarrow> string" where
  "append_rules [] updated_colors style_content = style_content"
| "append_rules ((color_name, color_value) # rest) updated_colors style_content =
     append_rules rest updated_colors
       (if color_name \<notin> set updated_colors
        then style_content @ new_rules color_name color_value
        else style_content)"

definition style_text :: "items \<Rightarrow> string \<Rightarrow> error + string" where
  \<comment> \<open>the new text of the style element, from its old text and the theme table\<close>
  "style_text new_colors style_content =
     (case update_rules new_colors (finditer_css style_content) (style_content, []) of
        Inl e \<Rightarrow> Inl e
      | Inr (content, updated_colors) \<Rightarrow> Inr (append_rules new_colors updated_colors content))"

definition update_svg_style :: "node list \<Rightarrow> items \<Rightarrow> error + node list" where
  "update_svg_style doc new_colors =
     (case get_style_element doc of
        (i, doc') \<Rightarrow>
          (case style_text new_colors (py_str (el_text (doc' ! i))) of
             Inl e \<Rightarrow> Inl e
           | Inr s \<Rightarrow> Inr (doc'[i := (doc' ! i)\<lparr>el_text := Some s\<rparr>])))"

section \<open>Class sets\<close>

text \<open>
  A Python \<open>set\<close> of strings is a list without duplicates. The order in which a set is
  iterated (by \<open>" ".join\<close>) is not fixed by the language: it is a parameter \<open>ord\<close> of
  the model, of which the theorems assume no more than \<open>iteration_order\<close>.
\<close>

definition iteration_order :: "(string list \<Rightarrow> string list) \<Rightarrow> bool" where
  "iteration_order ord \<longleftrightarrow> (\<forall>xs. set (ord xs) = set xs)"

definition class_set :: "node \<Rightarrow> string list" where
  \<comment> \<open>\<open>set()\<close> without a class attribute, else \<open>set([c.strip() for c in classes.split(" ")])\<close>\<close>
  "class_set el =
     (case attr_get el ''class'' of
        None \<Rightarrow> []
      | Some classes \<Rightarrow> remdups (map strip (split_on CHR '' '' classes)))"

definition write_classes :: "(string list \<Rightarrow> string list) \<Rightarrow> string list \<Rightarrow> node \<Rightarrow> node" where
  \<comment> \<open>\<open>if len(classes) > 0: element.set("class", " ".join(classes).strip())\<close>\<close>
  "write_classes ord classes el =
     (if length classes > 0 then attr_set ''class'' (strip (join CHR '' '' (ord classes))) el else el)"

section \<open>The Attribute Normalizer and the Color-to-Class Rewriter\<close>

record attribute =
  is_set :: bool
  attr_value :: "string option"

definition Attribute :: attribute where
  "Attribute = \<lparr>is_set = False, attr_value = None\<rparr>"

fun style_loop :: "(string \<rightharpoonup> string) \<Rightarrow> string list \<Rightarrow> string list \<times> attribute \<times> attribute
                    \<Rightarrow> error + string list \<times> attribute \<times> attribute" where
  \<comment> \<open>the loop of \<open>modify_style_attribute\<close>; the state is \<open>updated_style\<close>, \<open>fill_attr\<close>
      and \<open>stroke_attr\<close>\<close>
  "style_loop color_mapping [] st = Inr st"
| "style_loop color_mapping (style # rest) (updated_style, fill_attr, stroke_attr) =
     (case split_on CHR '':'' style of
        [a, v] \<Rightarrow>
          (let attr = strip a; val = strip v in
           if attr = ''fill'' \<and> color_mapping val \<noteq> None then
             style_loop color_mapping rest
               (updated_style,
                \<lparr>is_set = True,
                 attr_value = (if val \<noteq> ''none'' then Some val else attr_value fill_attr)\<rparr>,
                stroke_attr)
           else if attr = ''stroke'' \<and> color_mapping val \<noteq> None then
             style_loop color_mapping rest
               (updated_style,
                fill_attr,
                \<lparr>is_set = True,
                 attr_value = (if val \<noteq> ''none'' then Some val else attr_value stroke_attr)\<rparr>)
           else style_loop color_mapping rest (updated_style @ [style], fill_attr, stroke_attr))
      | _ \<Rightarrow> Inl UnpackError)"

definition modify_style_attribute ::
  "(string \<rightharpoonup> string) \<Rightarrow> string \<Rightarrow> attribute \<Rightarrow> attribute \<Rightarrow> error + string \<times> attribute \<times> attribute" where
  \<comment> \<open>the new style string, with the two attributes as the call leaves them\<close>
  "modify_style_attribute color_mapping style_attr fill_attr stroke_attr =
     (if strip style_attr = [] then Inr ([], fill_attr, stroke_attr)
      else
        (case style_loop color_mapping (split_on CHR '';'' (strip style_attr)) ([], fill_attr, stroke_attr) of
           Inl e \<Rightarrow> Inl e
         | Inr (updated_style, f, s) \<Rightarrow> Inr (join CHR '';'' updated_style, f, s)))"

definition plain_attribute :: "node \<Rightarrow> string \<Rightarrow> attribute \<Rightarrow> attribute" where
  \<comment> \<open>\<open>if name in element.attrib and not a.is_set: a.is_set = True; a.value = element.attrib[name]\<close>\<close>
  "plain_attribute el name a =
     (case attr_get el name of
        Some v \<Rightarrow> if \<not> is_set a then \<lparr>is_set = True, attr_value = Some v\<rparr> else a
      | None \<Rightarrow> a)"

definition resolve :: "(string \<rightharpoonup> string) \<Rightarrow> node \<Rightarrow> error + node \<times> attribute \<times> attribute" where
  \<comment> \<open>the element with its style attribute rewritten, and its resolved fill and stroke\<close>
  "resolve color_mapping el =
     (case (case attr_get el ''style'' of
              None \<Rightarrow> Inr (el, Attribute, Attribute)
            | Some style_attr \<Rightarrow>
                (case modify_style_attribute color_mapping style_attr Attribute Attribute of
                   Inl e \<Rightarrow> Inl e
                 | Inr (new_style, f, s) \<Rightarrow> Inr (attr_set ''style'' new_style el, f, s))) of
        Inl e \<Rightarrow> Inl e
      | Inr (el', fill_attr, stroke_attr) \<Rightarrow>
          Inr (el', plain_attribute el' ''fill'' fill_attr, plain_attribute el' ''stroke'' stroke_attr))"

definition matched :: "(string \<rightharpoonup> string) \<Rightarrow> attribute \<Rightarrow> string option" where
  \<comment> \<open>\<open>a.is_set and a.value in color_mapping\<close>, with \<open>color_mapping[a.value]\<close>\<close>
  "matched color_mapping a =
     (if is_set a then (case attr_value a of None \<Rightarrow> None | Some v \<Rightarrow> color_mapping v) else None)"

definition add_class :: "string \<Rightarrow> string option \<Rightarrow> string list \<times> node \<Rightarrow> string list \<times> node" where
  \<comment> \<open>for a matched color: the class is added and the plain attribute deleted\<close>
  "add_class name m st =
     (case m of
        None \<Rightarrow> st
      | Some color \<Rightarrow> (List.insert (name @ ''-'' @ color) (fst st), attr_del name (snd st)))"

definition element_classes :: "(string \<rightharpoonup> string) \<Rightarrow> node \<Rightarrow> error + string list \<times> node" where
  \<comment> \<open>the class set of an element at line 174 of the source, and the element as it is then\<close>
  "element_classes color_mapping el =
     (case resolve color_mapping el of
        Inl e \<Rightarrow> Inl e
      | Inr (el', fill_attr, stroke_attr) \<Rightarrow>
          Inr (add_class ''stroke'' (matched color_mapping stroke_attr)
                (add_class ''fill'' (matched color_mapping fill_attr) (class_set el', el'))))"

definition replace_color_element ::
  "(string list \<Rightarrow> string list) \<Rightarrow> (string \<rightharpoonup> string) \<Rightarrow> node \<Rightarrow> error + node" where
  "replace_color_element ord color_mapping el =
     (case element_classes color_mapping el of
        Inl e \<Rightarrow> Inl e
      | Inr (classes, el') \<Rightarrow> Inr (write_classes ord classes el'))"

fun replace_color ::
  "(string list \<Rightarrow> string list) \<Rightarrow> (string \<rightharpoonup> string) \<Rightarrow> node list \<Rightarrow> error + node list" where
  "replace_color ord color_mapping [] = Inr []"
| "replace_color ord color_mapping (el # els) =
     (case replace_color_element ord color_mapping el of
        Inl e \<Rightarrow> Inl e
      | Inr el' \<Rightarrow>
          (case replace_color ord color_mapping els of
             Inl e \<Rightarrow> Inl e
           | Inr els' \<Rightarrow> Inr (el' # els')))"

section \<open>The Marker Propagator\<close>

definition start_end_mid :: "string \<Rightarrow> string option" where
  \<comment> \<open>\<open>(start|end|mid)\<close>: the alternatives start with different letters\<close>
  "start_end_mid s =
     (if startswith s ''start'' then Some (drop 5 s)
      else if startswith s ''end'' then Some (drop 3 s)
      else if startswith s ''mid'' then Some (drop 3 s)
      else None)"

definition marker_regex :: "string \<Rightarrow> string option" where
  \<comment> \<open>\<open>regex.match(s)\<close>, its group \<open>marker_id\<close>: the greedy \<open>.*\<close> stops at a newline, and
      the id ends before the last closing parenthesis of that line\<close>
  "marker_regex s =
     Option.bind (lit ''marker-'' s) (\<lambda>s1.
     Option.bind (start_end_mid s1) (\<lambda>s2.
     Option.bind (lit '':url(#'' s2) (\<lambda>s3.
       let line = takeWhile (\<lambda>x. x \<noteq> CHR 0x0A) s3 in
       if CHR '')'' \<in> set line
       then Some (rev (tl (dropWhile (\<lambda>x. x \<noteq> CHR '')'') (rev line))))
       else None)))"

text \<open>
  \<open>root.find(f".//*[@id='{element_id}']")\<close>: for an id without an apostrophe the
  expression selects the first descendant of the root with that id, in document order.
  An apostrophe in the id ends the quoted value early, and the expression is then another
  one: what the library answers to it (an element, none, or an error) is the parameter
  \<open>path_find\<close>, of which nothing is assumed.
\<close>

definition find_element_with_id ::
  "(node list \<Rightarrow> string \<Rightarrow> error + nat option) \<Rightarrow> node list \<Rightarrow> string \<Rightarrow> error + nat option" where
  "find_element_with_id path_find doc element_id =
     (if CHR 0x27 \<in> set element_id then path_find doc element_id
      else Inr (map_option Suc (first_index (\<lambda>el. attr_get el ''id'' = Some element_id) (tl doc))))"

definition prefixed :: "string \<Rightarrow> bool" where
  "prefixed c \<longleftrightarrow> startswith c ''fill'' \<or> startswith c ''stroke''"

definition force_fill_class :: "bool \<Rightarrow> string list \<Rightarrow> string list \<Rightarrow> error + string list" where
  \<comment> \<open>\<open>if force_fill and len(classes) > 0: color = list(classes)[0].split('-')[1];
      marker_classes.add(f'fill-{color}')\<close>\<close>
  "force_fill_class force_fill classes marker_classes =
     (if force_fill \<and> length classes > 0 then
        (case split_on CHR ''-'' (hd classes) of
           x # color # rest \<Rightarrow> Inr (List.insert (''fill-'' @ color) marker_classes)
         | _ \<Rightarrow> Inl IndexError)
      else Inr marker_classes)"

definition propagate ::
  "(string list \<Rightarrow> string list) \<Rightarrow> (node list \<Rightarrow> string \<Rightarrow> error + nat option) \<Rightarrow> bool \<Rightarrow> nat \<Rightarrow> string \<Rightarrow> node list \<Rightarrow> error + node list" where
  \<comment> \<open>the body of the inner loop, for the element at position \<open>i\<close> and one piece of its
      style attribute\<close>
  "propagate ord path_find force_fill i style doc =
     (case marker_regex (strip style) of
        None \<Rightarrow> Inr doc
      | Some marker_id \<Rightarrow>
          (case attr_get (doc ! i) ''class'' of
             None \<Rightarrow> Inr doc
           | Some cls \<Rightarrow>
               (let classes = filter prefixed (split_on CHR '' '' cls) in
                case find_element_with_id path_find doc marker_id of
                  Inl e \<Rightarrow> Inl e
                | Inr None \<Rightarrow> Inl NoneDereference
                | Inr (Some j) \<Rightarrow>
                    (case force_fill_class force_fill classes
                            (fold List.insert classes (class_set (doc ! j))) of
                       Inl e \<Rightarrow> Inl e
                     | Inr marker_classes \<Rightarrow>
                         Inr (doc[j := write_classes ord marker_classes (doc ! j)])))))"

fun propagate_styles ::
  "(string list \<Rightarrow> string list) \<Rightarrow> (node list \<Rightarrow> string \<Rightarrow> error + nat option) \<Rightarrow> bool \<Rightarrow> nat \<Rightarrow> string list \<Rightarrow> node list \<Rightarrow> error + node list" where
  "propagate_styles ord path_find force_fill i [] doc = Inr doc"
| "propagate_styles ord path_find force_fill i (style # rest) doc =
     (case propagate ord path_find force_fill i style doc of
        Inl e \<Rightarrow> Inl e
      | Inr doc' \<Rightarrow> propagate_styles ord path_find force_fill i rest doc')"

definition visit ::
  "(string list \<Rightarrow> string list) \<Rightarrow> (node list \<Rightarrow> string \<Rightarrow> error + nat option) \<Rightarrow> bool \<Rightarrow> nat \<Rightarrow> node list \<Rightarrow> error + node list" where
  \<comment> \<open>the body of the outer loop, for the element at position \<open>i\<close>\<close>
  "visit ord path_find force_fill i doc =
     (case attr_get (doc ! i) ''style'' of
        None \<Rightarrow> Inr doc
      | Some style_attr \<Rightarrow> propagate_styles ord path_find force_fill i (split_on CHR '';'' style_attr) doc)"

fun visit_all ::
  "(string list \<Rightarrow> string list) \<Rightarrow> (node list \<Rightarrow> string \<Rightarrow> error + nat option) \<Rightarrow> bool \<Rightarrow> nat list \<Rightarrow> node list \<Rightarrow> error + node list" where
  "visit_all ord path_find force_fill [] doc = Inr doc"
| "visit_all ord path_find force_fill (i # is) doc =
     (case visit ord path_find force_fill i doc of
        Inl e \<Rightarrow> Inl e
      | Inr doc' \<Rightarrow> visit_all ord path_find force_fill is doc')"

definition deal_with_markers ::
  "(string list \<Rightarrow> string list) \<Rightarrow> (node list \<Rightarrow> string \<Rightarrow> error + nat option) \<Rightarrow> bool \<Rightarrow> node list \<Rightarrow> error + node list" where
  "deal_with_markers ord path_find force_fill doc = visit_all ord path_find force_fill [0..<length doc] doc"

section \<open>The color mapping and the values the style rules carry\<close>

lemma reverse_update_keeps: "k \<in> dom m \<Longrightarrow> k \<in> dom (reverse_update colors m)"
  unfolding reverse_update_def
  by (induction colors arbitrary: m) (simp_all add: reverse_entry_def)

lemma reverse_update_adds:
  "(key, val) \<in> set colors \<Longrightarrow> CHR ''#'' # val \<in> dom (reverse_update colors m)"
proof (induction colors arbitrary: m)
  case Nil
  then show ?case by simp
next
  case (Cons p colors)
  have step: "reverse_update (p # colors) m = reverse_update colors (reverse_entry p m)"
    by (simp add: reverse_update_def)
  show ?case
  proof (cases "(key, val) = p")
    case True
    then have "CHR ''#'' # val \<in> dom (reverse_entry p m)"
      by (auto simp: reverse_entry_def)
    then show ?thesis
      unfolding step by (rule reverse_update_keeps)
  next
    case False
    with Cons.prems have "(key, val) \<in> set colors" by auto
    then show ?thesis unfolding step by (rule Cons.IH)
  qed
qed

lemma fold_reverse_update_keeps:
  "k \<in> dom m \<Longrightarrow> k \<in> dom (fold (\<lambda>p m. reverse_update (snd p) m) ts m)"
  by (induction ts arbitrary: m) (simp_all add: reverse_update_keeps)

lemma fold_reverse_update_adds:
  "(theme, colors) \<in> set ts \<Longrightarrow> (key, val) \<in> set colors \<Longrightarrow>
     CHR ''#'' # val \<in> dom (fold (\<lambda>p m. reverse_update (snd p) m) ts m)"
proof (induction ts arbitrary: m)
  case Nil
  then show ?case by simp
next
  case (Cons p ts)
  show ?case
  proof (cases "(theme, colors) = p")
    case True
    have "CHR ''#'' # val \<in> dom (reverse_update colors m)"
      by (rule reverse_update_adds[OF Cons.prems(2)])
    then have "CHR ''#'' # val
        \<in> dom (fold (\<lambda>p m. reverse_update (snd p) m) ts (reverse_update colors m))"
      by (rule fold_reverse_update_keeps)
    with True[symmetric] show ?thesis by simp
  next
    case False
    with Cons.prems have "(theme, colors) \<in> set ts" by auto
    from Cons.IH[OF this Cons.prems(2)] show ?thesis by simp
  qed
qed

text \<open>
  What the reverse-derived part of the table holds: \<open>load_theme_colors\<close> has already put
  a \<open>#\<close> before each value, and \<open>load_color_mapping\<close> puts a second one, so a theme value
  \<open>v\<close> is entered under the key \<open>##v\<close>.
\<close>

lemma load_color_mapping_double_hash:
  assumes "(theme, its) \<in> set cfg" and "(key, val) \<in> set its"
  shows "CHR ''#'' # CHR ''#'' # val \<in> dom (load_color_mapping base cfg)"
proof -
  have "(theme, hash_values its) \<in> set (load_theme_colors_all cfg)"
    using assms(1) by (force simp: load_theme_colors_all_def)
  moreover have "(key, CHR ''#'' # val) \<in> set (hash_values its)"
    using assms(2) by (force simp: hash_values_def)
  ultimately show ?thesis
    unfolding load_color_mapping_def by (rule fold_reverse_update_adds)
qed

text \<open>
  C1 (the code at the failing input). The theme source has one theme \<open>light\<close> with
  \<open>red = ff0000\<close>, the base mapping has the one entry \<open>#ffffff = white\<close>. The selected
  theme table maps \<open>red\<close> to \<open>#ff0000\<close>, the Style-Block Manager writes \<open>#ff0000\<close> into
  the two rules it generates, and the table of the mapping builder has no key \<open>#ff0000\<close>:
  the theme-derived key is \<open>##ff0000\<close>.
\<close>

theorem C1_written_hex_not_a_key:
  "load_theme_colors [(''light'', [(''red'', ''ff0000'')])] ''light'' = Inr [(''red'', ''#ff0000'')]
   \<and> style_text [(''red'', ''#ff0000'')] []
       = Inr (CHR 0x0A # ''        .fill-red {fill:#ff0000;}''
              @ CHR 0x0A # ''        .stroke-red {stroke:#ff0000;}'')
   \<and> load_color_mapping [(''#ffffff'', ''white'')] [(''light'', [(''red'', ''ff0000'')])] ''#ff0000''
       = None
   \<and> load_color_mapping [(''#ffffff'', ''white'')] [(''light'', [(''red'', ''ff0000'')])] ''##ff0000''
       = Some ''red''"
  by (simp add: load_theme_colors_def load_color_mapping_def load_theme_colors_all_def
      hash_values_def reverse_update_def reverse_entry_def style_text_def new_rules_def)

section \<open>Existing rules of the style text\<close>

text \<open>
  C2 (the code at the failing input). The style text holds the rule
  \<open>.fill-red {fill:#000000;}\<close> and the theme table maps \<open>red\<close> to \<open>#ff0000\<close>. The rule
  is found, \<open>red\<close> is marked as present (nothing is appended), and the text comes back
  as it was: the hex value of the rule is still \<open>#000000\<close>.
\<close>

theorem C2_rule_not_rewritten:
  "finditer_css ''.fill-red {fill:#000000;}'' = [(''fill'', ''red'')]
   \<and> style_text [(''red'', ''#ff0000'')] ''.fill-red {fill:#000000;}''
       = Inr ''.fill-red {fill:#000000;}''"
  by code_simp

section \<open>Splitting, joining and stripping\<close>


lemma split_on_not_Nil [simp]: "split_on sep s \<noteq> []"
  by (induction s) auto

lemma split_on_no_sep: "sep \<notin> set s \<Longrightarrow> split_on sep s = [s]"
  by (induction s) auto

lemma set_split_on: "set (split_on sep s) = insert (hd (split_on sep s)) (set (tl (split_on sep s)))"
  by (cases "split_on sep s") auto

lemma split_on_append:
  "split_on sep (s @ t) =
     butlast (split_on sep s) @ (last (split_on sep s) @ hd (split_on sep t)) # tl (split_on sep t)"
proof (induction s)
  case Nil
  then show ?case by simp
next
  case (Cons c cs)
  obtain x xs where X: "split_on sep cs = x # xs"
    by (cases "split_on sep cs") auto
  show ?case
  proof (cases xs)
    case Nil
    with X Cons show ?thesis by simp
  next
    case (Cons x' xs')
    with X Cons.IH show ?thesis by simp
  qed
qed

lemma split_on_snoc:
  "split_on sep (s @ [w]) =
     (if w = sep then split_on sep s @ [[]]
      else butlast (split_on sep s) @ [last (split_on sep s) @ [w]])"
  by (simp add: split_on_append)

lemma split_on_rev: "split_on sep (rev s) = rev (map rev (split_on sep s))"
proof (induction s)
  case Nil
  then show ?case by simp
next
  case (Cons c cs)
  obtain x xs where X: "split_on sep cs = x # xs"
    by (cases "split_on sep cs") auto
  with Cons show ?case by (simp add: split_on_snoc)
qed

lemma rstrip_Cons:
  "rstrip (a # ys) =
     (if list_all py_isspace ys then (if py_isspace a then [] else [a]) else a # rstrip ys)"
  by (auto simp: rstrip_def dropWhile_append list_all_iff)

lemma lstrip_all: "list_all py_isspace ys \<Longrightarrow> lstrip ys = []"
  by (simp add: lstrip_def list_all_iff)

lemma strip_commute: "lstrip (rstrip y) = rstrip (lstrip y)"
proof (induction y)
  case Nil
  then show ?case by (simp add: lstrip_def rstrip_def)
next
  case (Cons a ys)
  show ?case
  proof (cases "py_isspace a")
    case True
    then have l: "lstrip (a # ys) = lstrip ys" by (simp add: lstrip_def)
    show ?thesis
    proof (cases "list_all py_isspace ys")
      case all: True
      with True show ?thesis
        by (simp add: l rstrip_Cons lstrip_all) (simp add: lstrip_def rstrip_def)
    next
      case False
      with True have "lstrip (rstrip (a # ys)) = lstrip (rstrip ys)"
        by (simp add: rstrip_Cons lstrip_def)
      with Cons l show ?thesis by simp
    qed
  next
    case False
    then have l: "lstrip (a # ys) = a # ys" by (simp add: lstrip_def)
    from False show ?thesis
      by (simp add: l rstrip_Cons) (simp add: lstrip_def)
  qed
qed

lemma rstrip_rev: "rstrip (rev s) = rev (lstrip s)"
  by (simp add: rstrip_def lstrip_def)

lemma lstrip_rev: "lstrip (rev s) = rev (rstrip s)"
  by (simp add: rstrip_def lstrip_def)

lemma strip_rev: "strip (rev s) = rev (strip s)"
  by (simp add: strip_def rstrip_rev lstrip_rev strip_commute)

lemma strip_Cons_space: "py_isspace w \<Longrightarrow> strip (w # s) = strip s"
  by (simp add: strip_def lstrip_def)

lemma strip_Nil [simp]: "strip [] = []"
  by (simp add: strip_def lstrip_def rstrip_def)

lemma strip_idem: "strip (strip s) = strip s"
proof -
  have l: "lstrip (lstrip t) = lstrip t" for t
    by (simp add: lstrip_def dropWhile_idem)
  have r: "rstrip (rstrip t) = rstrip t" for t
    by (simp add: rstrip_def dropWhile_idem)
  have "strip (strip s) = rstrip (lstrip (rstrip (lstrip s)))" by (simp add: strip_def)
  also have "\<dots> = rstrip (rstrip (lstrip (lstrip s)))" by (simp add: strip_commute)
  also have "\<dots> = strip s" by (simp add: l r strip_def)
  finally show ?thesis .
qed

section \<open>The class tokens of an attribute value\<close>

text \<open>
  The class tokens of an attribute value, as the source reads them back
  (\<open>c.strip() for c in value.split(" ")\<close>), without the empty token that two spaces in
  a row leave.
\<close>


definition tokens :: "string \<Rightarrow> string set" where
  "tokens s = strip ` set (split_on CHR '' '' s) - {[]}"

lemma tokens_Cons_space: 
  assumes "py_isspace w" shows "tokens (w # s) = tokens s"
proof -
  obtain x xs where X: "split_on CHR '' '' s = x # xs"
    by (cases "split_on CHR '' '' s") auto
  show ?thesis
  proof (cases "w = CHR '' ''")
    case True
    then show ?thesis by (auto simp: tokens_def)
  next
    case False
    with X assms show ?thesis by (simp add: tokens_def strip_Cons_space)
  qed
qed

lemma tokens_lstrip: "tokens (lstrip s) = tokens s"
  unfolding lstrip_def by (induction s) (simp_all add: tokens_Cons_space)

lemma tokens_rev: "tokens (rev s) = rev ` tokens s"
proof -
  have "strip ` set (split_on CHR '' '' (rev s)) = rev ` strip ` set (split_on CHR '' '' s)"
    by (simp add: split_on_rev image_image strip_rev)
  moreover have "rev ` A - {[]} = rev ` (A - {[]})" for A :: "string set"
    by auto
  ultimately show ?thesis by (simp add: tokens_def)
qed

lemma tokens_rstrip: "tokens (rstrip s) = tokens s"
proof -
  have "tokens (rstrip s) = rev ` tokens (lstrip (rev s))"
    by (simp add: rstrip_def lstrip_def tokens_rev)
  also have "\<dots> = rev ` rev ` tokens s"
    by (simp add: tokens_lstrip tokens_rev)
  also have "\<dots> = tokens s" by (simp add: image_image)
  finally show ?thesis .
qed

lemma tokens_strip: "tokens (strip s) = tokens s"
  by (simp add: strip_def tokens_rstrip tokens_lstrip)

lemma split_on_join:
  "xs \<noteq> [] \<Longrightarrow> \<forall>x \<in> set xs. sep \<notin> set x \<Longrightarrow> split_on sep (join sep xs) = xs"
proof (induction sep xs rule: join.induct)
  case (1 sep)
  then show ?case by simp
next
  case (2 sep x)
  then show ?case by (simp add: split_on_no_sep)
next
  case (3 sep x y ys)
  then have IH: "split_on sep (join sep (y # ys)) = y # ys" by simp
  have "split_on sep (x @ sep # join sep (y # ys))
        = butlast (split_on sep x) @ (last (split_on sep x) @ []) # split_on sep (join sep (y # ys))"
    by (subst split_on_append) simp
  with 3 IH show ?case by (simp add: split_on_no_sep)
qed

lemma tokens_written:
  assumes "iteration_order ord" "xs \<noteq> []" "\<forall>x \<in> set xs. CHR '' '' \<notin> set x"
  shows "tokens (strip (join CHR '' '' (ord xs))) = strip ` set xs - {[]}"
proof -
  from assms(1) have s: "set (ord xs) = set xs" by (simp add: iteration_order_def)
  with assms(2) have ne: "ord xs \<noteq> []" by auto
  from s assms(3) have "\<forall>x \<in> set (ord xs). CHR '' '' \<notin> set x" by simp
  with ne have "split_on CHR '' '' (join CHR '' '' (ord xs)) = ord xs"
    by (rule split_on_join)
  then have "tokens (join CHR '' '' (ord xs)) = strip ` set xs - {[]}"
    by (simp add: tokens_def s)
  then show ?thesis by (simp only: tokens_strip)
qed

section \<open>Malformed style attributes\<close>

text \<open>
  \<open>colonless s\<close>: splitting \<open>s\<close> on \<open>;\<close> yields a piece without a colon. Stripping
  the string does not change that.
\<close>


definition colonless :: "string \<Rightarrow> bool" where
  "colonless s \<longleftrightarrow> (\<exists>seg \<in> set (split_on CHR '';'' s). CHR '':'' \<notin> set seg)"

lemma colonless_Cons:
  assumes "w \<noteq> CHR '';''" "w \<noteq> CHR '':''"
  shows "colonless (w # s) = colonless s"
proof -
  obtain x xs where X: "split_on CHR '';'' s = x # xs"
    by (cases "split_on CHR '';'' s") auto
  with assms show ?thesis by (simp add: colonless_def)
qed

lemma space_not_sep: "py_isspace w \<Longrightarrow> w \<noteq> CHR '';'' \<and> w \<noteq> CHR '':''"
  by (auto simp: py_isspace_def)

lemma colonless_lstrip: "colonless (lstrip s) = colonless s"
  unfolding lstrip_def by (induction s) (simp_all add: colonless_Cons space_not_sep)

lemma colonless_rev: "colonless (rev s) = colonless s"
  by (simp add: colonless_def split_on_rev)

lemma colonless_strip: "colonless (strip s) = colonless s"
proof -
  have "colonless (rstrip t) = colonless t" for t
  proof -
    have "colonless (rstrip t) = colonless (lstrip (rev t))"
      by (simp add: rstrip_def lstrip_def colonless_rev)
    then show ?thesis by (simp add: colonless_lstrip colonless_rev)
  qed
  then show ?thesis by (simp add: strip_def colonless_lstrip)
qed

lemma style_loop_bad:
  "seg \<in> set segs \<Longrightarrow> CHR '':'' \<notin> set seg \<Longrightarrow> style_loop cm segs st = Inl UnpackError"
proof (induction segs arbitrary: st)
  case Nil
  then show ?case by simp
next
  case (Cons style rest)
  obtain u f s where st: "st = (u, f, s)" by (cases st)
  show ?case
  proof (cases "style = seg")
    case True
    then show ?thesis using Cons.prems(2) by (simp add: st split_on_no_sep)
  next
    case False
    with Cons.prems have "seg \<in> set rest" by simp
    then have "\<And>st'. style_loop cm rest st' = Inl UnpackError"
      using Cons.IH Cons.prems(2) by blast
    then show ?thesis
      by (simp add: st Let_def split: list.splits)
  qed
qed

lemma modify_style_attribute_bad:
  assumes "strip s \<noteq> []" "seg \<in> set (split_on CHR '';'' s)" "CHR '':'' \<notin> set seg"
  shows "modify_style_attribute cm s f st = Inl UnpackError"
proof -
  from assms(2,3) have "colonless s" by (auto simp: colonless_def)
  then have "colonless (strip s)" by (simp add: colonless_strip)
  then obtain seg' where "seg' \<in> set (split_on CHR '';'' (strip s))" "CHR '':'' \<notin> set seg'"
    by (auto simp: colonless_def)
  then have "style_loop cm (split_on CHR '';'' (strip s)) ([], f, st) = Inl UnpackError"
    by (rule style_loop_bad)
  with assms(1) show ?thesis by (simp add: modify_style_attribute_def)
qed

lemma replace_color_element_error:
  "replace_color_element ord cm el = Inl e \<Longrightarrow> resolve cm el = Inl e"
  by (auto simp: replace_color_element_def element_classes_def split: sum.splits prod.splits)

lemma replace_color_error:
  "el \<in> set doc \<Longrightarrow> replace_color_element ord cm el = Inl e \<Longrightarrow>
     \<exists>e'. replace_color ord cm doc = Inl e'"
  by (induction doc) (auto split: sum.splits)

lemma style_loop_error: "style_loop cm segs st = Inl e \<Longrightarrow> e = UnpackError"
proof (induction segs arbitrary: st)
  case Nil
  then show ?case by simp
next
  case (Cons style rest)
  obtain u f s where st: "st = (u, f, s)" by (cases st)
  from Cons.prems Cons.IH show ?case
    by (auto simp: st Let_def split: list.splits if_splits)
qed

lemma resolve_error: "resolve cm el = Inl e \<Longrightarrow> e = UnpackError"
  by (auto simp: resolve_def modify_style_attribute_def
      split: option.splits sum.splits if_splits prod.splits dest: style_loop_error)

lemma replace_color_only_error: "replace_color ord cm doc = Inl e \<Longrightarrow> e = UnpackError"
  by (induction doc arbitrary: e)
    (auto split: sum.splits dest: replace_color_element_error resolve_error)

text \<open>
  C8 (as amended). An element of the tree has a style attribute that is not empty once
  its surrounding whitespace is stripped, and splitting the attribute on \<open>;\<close> yields a
  piece without a colon. Then \<open>modify_style_attribute\<close> raises the unpacking error on
  that attribute, and the whole run of the Rewriter over the tree ends with that error:
  the malformed attribute is not skipped.
\<close>

theorem C8_malformed_style_raises:
  assumes "el \<in> set doc" and "attr_get el ''style'' = Some s" and "strip s \<noteq> []"
    and "seg \<in> set (split_on CHR '';'' s)" and "CHR '':'' \<notin> set seg"
  shows "modify_style_attribute color_mapping s Attribute Attribute = Inl UnpackError
         \<and> replace_color ord color_mapping doc = Inl UnpackError"
proof -
  have m: "modify_style_attribute color_mapping s Attribute Attribute = Inl UnpackError"
    using assms(3-5) by (rule modify_style_attribute_bad)
  then have "replace_color_element ord color_mapping el = Inl UnpackError"
    using assms(2)
    by (simp add: replace_color_element_def element_classes_def resolve_def)
  with assms(1) obtain e' where e: "replace_color ord color_mapping doc = Inl e'"
    using replace_color_error by blast
  then have "e' = UnpackError" by (rule replace_color_only_error)
  with m e show ?thesis by simp
qed

theorem C8_malformed_style_raises_witness:
  "modify_style_attribute Map.empty ''fill #ff0000; opacity:1'' Attribute Attribute = Inl UnpackError
   \<and> replace_color (\<lambda>xs. xs) Map.empty
         [\<lparr>tag = ''rect'', attrib = [(''style'', ''fill #ff0000; opacity:1'')],
           el_text = None, depth = 0\<rparr>]
       = Inl UnpackError"
proof -
  let ?el = "\<lparr>tag = ''rect'', attrib = [(''style'', ''fill #ff0000; opacity:1'')],
              el_text = None, depth = 0\<rparr>"
  have a: "?el \<in> set [?el]" by simp
  have b: "attr_get ?el ''style'' = Some ''fill #ff0000; opacity:1''" by code_simp
  have c: "strip ''fill #ff0000; opacity:1'' \<noteq> []" by code_simp
  have d: "''fill #ff0000'' \<in> set (split_on CHR '';'' ''fill #ff0000; opacity:1'')" by code_simp
  have e: "CHR '':'' \<notin> set ''fill #ff0000''" by code_simp
  show ?thesis by (rule C8_malformed_style_raises[OF a b c d e])
qed

text \<open>
  C8 as stated fails on a style attribute of whitespace only: the attribute is not empty
  and its one piece has no colon, and the source returns the empty style string for it
  before it splits anything.
\<close>

theorem C8_whitespace_style_counterexample:
  "'' '' \<noteq> []
   \<and> split_on CHR '';'' '' '' = ['' '']
   \<and> CHR '':'' \<notin> set '' ''
   \<and> modify_style_attribute Map.empty '' '' Attribute Attribute = Inr ([], Attribute, Attribute)
   \<and> replace_color (\<lambda>xs. xs) Map.empty
         [\<lparr>tag = ''rect'', attrib = [(''style'', '' '')], el_text = None, depth = 0\<rparr>]
       = Inr [\<lparr>tag = ''rect'', attrib = [(''style'', [])], el_text = None, depth = 0\<rparr>]"
  by code_simp

section \<open>Attributes after the Rewriter\<close>

lemma map_of_alist_set: "map_of (alist_set k v ps) k' = (if k' = k then Some v else map_of ps k')"
  by (induction ps) auto

lemma attr_get_attr_set [simp]:
  "attr_get (attr_set k v el) k' = (if k' = k then Some v else attr_get el k')"
  by (simp add: attr_get_def attr_set_def map_of_alist_set)

lemma map_of_filter_key:
  "map_of (filter (\<lambda>p. fst p \<noteq> k) ps) k' = (if k' = k then None else map_of ps k')"
  by (induction ps) auto

lemma attr_get_attr_del [simp]:
  "attr_get (attr_del k el) k' = (if k' = k then None else attr_get el k')"
  by (simp add: attr_get_def attr_del_def map_of_filter_key)

lemma attr_get_write_classes:
  "attr_get (write_classes ord cs el) k =
     (if k = ''class'' \<and> cs \<noteq> [] then Some (strip (join CHR '' '' (ord cs))) else attr_get el k)"
  by (simp add: write_classes_def)

text \<open>
  \<open>resolved_decl\<close>: a piece of a style attribute that the loop of
  \<open>modify_style_attribute\<close> resolves and drops, that is a \<open>fill\<close> or \<open>stroke\<close>
  declaration whose value is a key of the color mapping.
\<close>

definition resolved_decl :: "(string \<rightharpoonup> string) \<Rightarrow> string \<Rightarrow> bool" where
  "resolved_decl color_mapping style =
     (case split_on CHR '':'' style of
        [a, v] \<Rightarrow> (strip a = ''fill'' \<or> strip a = ''stroke'') \<and> color_mapping (strip v) \<noteq> None
      | _ \<Rightarrow> False)"

lemma style_loop_all_resolved:
  "list_all (resolved_decl cm) segs \<Longrightarrow> \<exists>f' s'. style_loop cm segs (u, f, s) = Inr (u, f', s')"
proof (induction segs arbitrary: f s)
  case Nil
  then show ?case by simp
next
  case (Cons style rest)
  then have r: "resolved_decl cm style" and IH: "\<And>f s. \<exists>f' s'. style_loop cm rest (u, f, s) = Inr (u, f', s')"
    by simp_all
  from r obtain a v where av: "split_on CHR '':'' style = [a, v]"
    and k: "strip a = ''fill'' \<or> strip a = ''stroke''" and c: "cm (strip v) \<noteq> None"
    by (auto simp: resolved_decl_def split: list.splits)
  from k show ?case
  proof
    assume "strip a = ''fill''"
    with av c IH show ?thesis by (simp add: Let_def)
  next
    assume "strip a = ''stroke''"
    with av c IH show ?thesis by (simp add: Let_def)
  qed
qed

lemma modify_style_attribute_empty:
  assumes "strip st = [] \<or> list_all (resolved_decl cm) (split_on CHR '';'' (strip st))"
  shows "\<exists>f' s'. modify_style_attribute cm st f s = Inr ([], f', s')"
proof (cases "strip st = []")
  case True
  then show ?thesis by (simp add: modify_style_attribute_def)
next
  case False
  with assms have "list_all (resolved_decl cm) (split_on CHR '';'' (strip st))" by simp
  from style_loop_all_resolved[OF this, of "[]" f s] False show ?thesis
    by (auto simp: modify_style_attribute_def)
qed

lemma resolve_attrs:
  assumes "resolve cm el = Inr (el', f, s)"
  shows "attr_get el' k = (if k = ''style'' \<and> attr_get el ''style'' \<noteq> None then attr_get el' ''style'' else attr_get el k)"
  using assms
  by (auto simp: resolve_def split: option.splits sum.splits prod.splits)

lemma resolve_style:
  assumes "resolve cm el = Inr (el', f, s)" and "attr_get el ''style'' = Some st"
  shows "\<exists>f0 s0. modify_style_attribute cm st Attribute Attribute = Inr (the (attr_get el' ''style''), f0, s0)"
  using assms
  by (auto simp: resolve_def split: option.splits sum.splits prod.splits)

lemma add_class_attrs:
  "k \<noteq> name \<Longrightarrow> attr_get (snd (add_class name m st)) k = attr_get (snd st) k"
  by (cases m) (simp_all add: add_class_def)

lemma add_class_None [simp]: "add_class name None st = st"
  by (simp add: add_class_def)

lemma replace_color_nth:
  "replace_color ord cm doc = Inr doc' \<Longrightarrow>
     length doc' = length doc \<and> (\<forall>i < length doc. replace_color_element ord cm (doc ! i) = Inr (doc' ! i))"
proof (induction doc arbitrary: doc')
  case Nil
  then show ?case by simp
next
  case (Cons el els)
  from Cons.prems obtain el' els' where e: "replace_color_element ord cm el = Inr el'"
    and r: "replace_color ord cm els = Inr els'" and d: "doc' = el' # els'"
    by (auto split: sum.splits)
  from Cons.IH[OF r] e d show ?case
    by (auto simp: nth_Cons split: nat.splits)
qed

lemma element_no_class:
  assumes "replace_color_element ord cm el = Inr el'" and "attr_get el ''class'' = None"
    and "resolve cm el = Inr (e1, f, s)" and "matched cm f = None" and "matched cm s = None"
  shows "attr_get el' ''class'' = None"
proof -
  from resolve_attrs[OF assms(3), of "''class''"] assms(2)
  have c: "attr_get e1 ''class'' = None" by simp
  then have "class_set e1 = []" by (simp add: class_set_def)
  with assms(1,3,4,5) have "el' = e1"
    by (simp add: replace_color_element_def element_classes_def write_classes_def)
  with c show ?thesis by simp
qed

lemma element_empty_style:
  assumes "replace_color_element ord cm el = Inr el'" and "attr_get el ''style'' = Some st"
    and "strip st = [] \<or> list_all (resolved_decl cm) (split_on CHR '';'' (strip st))"
  shows "attr_get el' ''style'' = Some []"
proof -
  from assms(1) obtain e1 f s where r: "resolve cm el = Inr (e1, f, s)"
    and el': "el' = write_classes ord
        (fst (add_class ''stroke'' (matched cm s) (add_class ''fill'' (matched cm f) (class_set e1, e1))))
        (snd (add_class ''stroke'' (matched cm s) (add_class ''fill'' (matched cm f) (class_set e1, e1))))"
    by (auto simp: replace_color_element_def element_classes_def split: sum.splits prod.splits)
  from modify_style_attribute_empty[OF assms(3)] obtain f' s'
    where m: "modify_style_attribute cm st Attribute Attribute = Inr ([], f', s')" by blast
  from r assms(2) m have "attr_get e1 ''style'' = Some []"
    by (auto simp: resolve_def split: sum.splits prod.splits)
  then show ?thesis
    by (simp add: el' attr_get_write_classes add_class_attrs)
qed

text \<open>
  C9. The Rewriter has run over the tree without an error. An element that had no class
  attribute and whose resolved fill and stroke matched no key of the color mapping has
  no class attribute afterwards. An element whose style attribute was blank, or held
  nothing but resolved fill and stroke declarations, has a style attribute afterwards,
  and its value is the empty string.
\<close>

theorem C9_no_empty_class_but_empty_style:
  assumes "replace_color ord color_mapping doc = Inr doc'" and "i < length doc"
  shows "(attr_get (doc ! i) ''class'' = None
          \<and> (\<exists>el f s. resolve color_mapping (doc ! i) = Inr (el, f, s)
                \<and> matched color_mapping f = None \<and> matched color_mapping s = None)
          \<longrightarrow> attr_get (doc' ! i) ''class'' = None)
       \<and> (\<forall>st. attr_get (doc ! i) ''style'' = Some st
               \<and> (strip st = []
                  \<or> list_all (resolved_decl color_mapping) (split_on CHR '';'' (strip st)))
          \<longrightarrow> attr_get (doc' ! i) ''style'' = Some [])"
proof -
  from replace_color_nth[OF assms(1)] assms(2)
  have e: "replace_color_element ord color_mapping (doc ! i) = Inr (doc' ! i)" by simp
  show ?thesis
    using element_no_class[OF e] element_empty_style[OF e] by blast
qed

theorem C9_no_empty_class_but_empty_style_witness:
  "replace_color (\<lambda>xs. xs) [''#ff0000'' \<mapsto> ''red'']
     [\<lparr>tag = ''svg'', attrib = [], el_text = None, depth = 0\<rparr>,
      \<lparr>tag = ''rect'', attrib = [(''fill'', ''#123456'')], el_text = None, depth = 1\<rparr>,
      \<lparr>tag = ''circle'', attrib = [(''style'', ''fill:#ff0000'')], el_text = None, depth = 1\<rparr>]
   = Inr
     [\<lparr>tag = ''svg'', attrib = [], el_text = None, depth = 0\<rparr>,
      \<lparr>tag = ''rect'', attrib = [(''fill'', ''#123456'')], el_text = None, depth = 1\<rparr>,
      \<lparr>tag = ''circle'', attrib = [(''style'', []), (''class'', ''fill-red'')], el_text = None, depth = 1\<rparr>]
   \<and> attr_get \<lparr>tag = ''rect'', attrib = [(''fill'', ''#123456'')], el_text = None, depth = 1\<rparr> ''class''
       = None
   \<and> attr_get \<lparr>tag = ''circle'', attrib = [(''style'', []), (''class'', ''fill-red'')],
                 el_text = None, depth = 1\<rparr> ''style''
       = Some []"
proof -
  let ?cm = "[''#ff0000'' \<mapsto> ''red'']"
  let ?rect = "\<lparr>tag = ''rect'', attrib = [(''fill'', ''#123456'')], el_text = None, depth = 1\<rparr>"
  let ?doc = "[\<lparr>tag = ''svg'', attrib = [], el_text = None, depth = 0\<rparr>, ?rect,
      \<lparr>tag = ''circle'', attrib = [(''style'', ''fill:#ff0000'')], el_text = None, depth = 1\<rparr>]"
  let ?doc' = "[\<lparr>tag = ''svg'', attrib = [], el_text = None, depth = 0\<rparr>, ?rect,
      \<lparr>tag = ''circle'', attrib = [(''style'', []), (''class'', ''fill-red'')], el_text = None, depth = 1\<rparr>]"
  have run: "replace_color (\<lambda>xs. xs) ?cm ?doc = Inr ?doc'" by code_simp
  have n1: "1 < length ?doc" and n2: "2 < length ?doc" by simp_all
  have c: "attr_get (?doc ! 1) ''class'' = None" by code_simp
  have r: "resolve ?cm (?doc ! 1)
           = Inr (?rect, \<lparr>is_set = True, attr_value = Some ''#123456''\<rparr>, Attribute)"
    by code_simp
  have mf: "matched ?cm \<lparr>is_set = True, attr_value = Some ''#123456''\<rparr> = None" by code_simp
  have ms: "matched ?cm Attribute = None" by code_simp
  have st: "attr_get (?doc ! 2) ''style'' = Some ''fill:#ff0000''" by code_simp
  have al: "list_all (resolved_decl ?cm) (split_on CHR '';'' (strip ''fill:#ff0000''))" by code_simp
  from C9_no_empty_class_but_empty_style[OF run n1] c r mf ms
  have a: "attr_get (?doc' ! 1) ''class'' = None" by blast
  from C9_no_empty_class_but_empty_style[OF run n2] st al
  have b: "attr_get (?doc' ! 2) ''style'' = Some []" by blast
  from run a b show ?thesis by simp
qed

section \<open>Class tokens, references and targets\<close>

text \<open>
  \<open>class_tokens\<close>: the class tokens of an element, none when it has no class attribute.
\<close>

definition class_tokens :: "node \<Rightarrow> string set" where
  "class_tokens el = (case attr_get el ''class'' of None \<Rightarrow> {} | Some c \<Rightarrow> tokens c)"

text \<open>
  \<open>marker_ids\<close>: the ids that the pieces of an element's style attribute reference, as
  the Marker Propagator reads them. \<open>referenced_ids\<close>: those of all elements of the tree.
\<close>

definition marker_ids :: "node \<Rightarrow> string list" where
  "marker_ids el =
     (case attr_get el ''style'' of
        None \<Rightarrow> []
      | Some style_attr \<Rightarrow>
          List.map_filter (\<lambda>style. marker_regex (strip style)) (split_on CHR '';'' style_attr))"

definition referenced_ids :: "node list \<Rightarrow> string list" where
  "referenced_ids doc = concat (map marker_ids doc)"

text \<open>
  \<open>plain_ids doc\<close>: no id referenced in the tree contains an apostrophe, so every
  lookup of a run is the search for the first descendant of the root with that id.
  \<open>not_target i doc\<close>: the id of the element at position \<open>i\<close>, if it has one, is
  referenced nowhere in the tree. \<open>single_reference i m doc\<close>: the style attribute of
  the element at position \<open>i\<close> holds one marker reference, to the id \<open>m\<close>, and no other
  element of the tree holds any.
\<close>

definition plain_ids :: "node list \<Rightarrow> bool" where
  "plain_ids doc \<longleftrightarrow> (\<forall>m \<in> set (referenced_ids doc). CHR 0x27 \<notin> set m)"

definition not_target :: "nat \<Rightarrow> node list \<Rightarrow> bool" where
  "not_target i doc \<longleftrightarrow> (\<forall>m \<in> set (referenced_ids doc). attr_get (doc ! i) ''id'' \<noteq> Some m)"

definition single_reference :: "nat \<Rightarrow> string \<Rightarrow> node list \<Rightarrow> bool" where
  "single_reference i m doc \<longleftrightarrow>
     marker_ids (doc ! i) = [m] \<and> (\<forall>k < length doc. k \<noteq> i \<longrightarrow> marker_ids (doc ! k) = [])"

text \<open>
  \<open>stable doc doc'\<close>: the trees have as many elements, with the same style and id
  attributes, and an element with a class attribute in \<open>doc\<close> has one in \<open>doc'\<close>.
  \<open>grows doc doc'\<close>: the trees have as many elements, and no element of \<open>doc\<close> has a
  class token that it does not have in \<open>doc'\<close>.
\<close>

definition stable :: "node list \<Rightarrow> node list \<Rightarrow> bool" where
  "stable doc doc' \<longleftrightarrow>
     length doc' = length doc
     \<and> (\<forall>k < length doc.
           attr_get (doc' ! k) ''style'' = attr_get (doc ! k) ''style''
         \<and> attr_get (doc' ! k) ''id'' = attr_get (doc ! k) ''id''
         \<and> (attr_get (doc ! k) ''class'' \<noteq> None \<longrightarrow> attr_get (doc' ! k) ''class'' \<noteq> None))"

definition grows :: "node list \<Rightarrow> node list \<Rightarrow> bool" where
  "grows doc doc' \<longleftrightarrow>
     length doc' = length doc \<and> (\<forall>k < length doc. class_tokens (doc ! k) \<subseteq> class_tokens (doc' ! k))"

subsection \<open>Lists and strings\<close>

lemma first_index_Some: "first_index P xs = Some k \<Longrightarrow> k < length xs \<and> P (xs ! k)"
  by (induction xs arbitrary: k) (auto split: if_splits)

lemma first_index_None: "first_index P xs = None \<longleftrightarrow> (\<forall>x \<in> set xs. \<not> P x)"
  by (induction xs) auto

lemma first_index_cong:
  "length xs = length ys \<Longrightarrow> (\<forall>k < length xs. P (xs ! k) = Q (ys ! k))
   \<Longrightarrow> first_index P xs = first_index Q ys"
proof (induction xs arbitrary: ys)
  case Nil
  then show ?case by simp
next
  case (Cons x xs)
  from Cons.prems(1) obtain y ys' where ys: "ys = y # ys'" by (cases ys) auto
  from Cons.prems(2) have h: "P x = Q y" unfolding ys by auto
  have "\<forall>k < length xs. P (xs ! k) = Q (ys' ! k)"
  proof (intro allI impI)
    fix k assume "k < length xs"
    then have "Suc k < length (x # xs)" by simp
    with Cons.prems(2) have "P ((x # xs) ! Suc k) = Q (ys ! Suc k)" by blast
    then show "P (xs ! k) = Q (ys' ! k)" by (simp add: ys)
  qed
  with Cons.IH[of ys'] Cons.prems(1) have "first_index P xs = first_index Q ys'"
    by (simp add: ys)
  with h show ?case by (simp add: ys)
qed

lemma upt_split: "i < n \<Longrightarrow> [0..<n] = [0..<i] @ i # [Suc i..<n]"
proof -
  assume a: "i < n"
  then have "[0..<n] = [0..<i] @ [i..<n]"
    using upt_add_eq_append[of 0 i "n - i"] by simp
  with a show ?thesis by (simp add: upt_conv_Cons)
qed

lemma map_filter_single:
  "List.map_filter f xs = [y] \<Longrightarrow>
     \<exists>pre s post. xs = pre @ s # post \<and> f s = Some y
        \<and> (\<forall>x \<in> set pre. f x = None) \<and> (\<forall>x \<in> set post. f x = None)"
proof (induction xs)
  case Nil
  then show ?case by (simp add: List.map_filter_def)
next
  case (Cons x xs)
  show ?case
  proof (cases "f x")
    case None
    with Cons.prems have "List.map_filter f xs = [y]" by (simp add: List.map_filter_def)
    from Cons.IH[OF this] obtain pre s post where
      "xs = pre @ s # post" "f s = Some y" "\<forall>x \<in> set pre. f x = None" "\<forall>x \<in> set post. f x = None"
      by blast
    with None have "x # xs = (x # pre) @ s # post \<and> f s = Some y
        \<and> (\<forall>x \<in> set (x # pre). f x = None) \<and> (\<forall>x \<in> set post. f x = None)"
      by simp
    then show ?thesis by blast
  next
    case (Some z)
    with Cons.prems have z: "z = y" and r: "List.map_filter f xs = []"
      by (simp_all add: List.map_filter_def)
    from r have "\<forall>x \<in> set xs. f x = None"
      by (auto simp: List.map_filter_def filter_empty_conv)
    with Some z have "x # xs = [] @ x # xs \<and> f x = Some y
        \<and> (\<forall>x \<in> set []. f x = None) \<and> (\<forall>x \<in> set xs. f x = None)"
      by simp
    then show ?thesis by blast
  qed
qed

lemma split_on_piece_no_sep: "x \<in> set (split_on sep s) \<Longrightarrow> sep \<notin> set x"
proof (induction s arbitrary: x)
  case Nil
  then show ?case by simp
next
  case (Cons c cs)
  obtain y ys where Y: "split_on sep cs = y # ys"
    by (cases "split_on sep cs") auto
  with Cons show ?case by (auto split: if_splits)
qed

lemma split_on_piece_subset: "x \<in> set (split_on sep s) \<Longrightarrow> set x \<subseteq> set s"
proof (induction s arbitrary: x)
  case Nil
  then show ?case by simp
next
  case (Cons c cs)
  obtain y ys where Y: "split_on sep cs = y # ys"
    by (cases "split_on sep cs") auto
  with Cons show ?case by (fastforce split: if_splits)
qed

lemma join_Cons_Cons: "join sep ((c # x) # xs) = c # join sep (x # xs)"
  by (cases xs) simp_all

lemma join_split_on: "join sep (split_on sep s) = s"
proof (induction s)
  case Nil
  then show ?case by simp
next
  case (Cons c cs)
  obtain y ys where Y: "split_on sep cs = y # ys"
    by (cases "split_on sep cs") auto
  with Cons show ?case by (simp add: join_Cons_Cons)
qed

lemma split_on_two:
  assumes "split_on sep s = x # y # rest"
  shows "s = x @ sep # join sep (y # rest) \<and> sep \<notin> set x \<and> sep \<notin> set y"
proof -
  have "s = join sep (split_on sep s)" by (simp add: join_split_on)
  then have "s = x @ sep # join sep (y # rest)" by (simp add: assms)
  moreover have "x \<in> set (split_on sep s)" and "y \<in> set (split_on sep s)"
    by (simp_all add: assms)
  ultimately show ?thesis using split_on_piece_no_sep by blast
qed

lemma split_on_sep: "sep \<in> set s \<Longrightarrow> \<exists>x y rest. split_on sep s = x # y # rest"
proof (induction s)
  case Nil
  then show ?case by simp
next
  case (Cons c cs)
  obtain y ys where Y: "split_on sep cs = y # ys"
    by (cases "split_on sep cs") auto
  show ?case
  proof (cases "c = sep")
    case True
    with Y show ?thesis by simp
  next
    case False
    with Cons.prems have "sep \<in> set cs" by simp
    from Cons.IH[OF this] False show ?thesis by auto
  qed
qed

lemma set_strip: "set (strip s) \<subseteq> set s"
proof -
  have "set (strip s) \<subseteq> set (lstrip s)"
    unfolding strip_def rstrip_def using set_dropWhileD by fastforce
  also have "\<dots> \<subseteq> set s"
    unfolding lstrip_def using set_dropWhileD by fastforce
  finally show ?thesis .
qed

lemma set_fold_insert: "set (fold List.insert xs ys) = set xs \<union> set ys"
  by (induction xs arbitrary: ys) auto

lemma prefixed_strip: "prefixed c \<Longrightarrow> strip c \<noteq> []"
proof -
  assume "prefixed c"
  then obtain r where "c = CHR ''f'' # r \<or> c = CHR ''s'' # r"
    by (cases c) (auto simp: prefixed_def)
  then have "\<not> py_isspace (hd c)" and c: "c \<noteq> []" by (auto simp: py_isspace_def)
  then have l: "lstrip c = c" by (cases c) (auto simp: lstrip_def)
  have "rstrip c \<noteq> []"
  proof
    assume "rstrip c = []"
    then have "dropWhile py_isspace (rev c) = []" by (simp add: rstrip_def)
    then have "\<forall>x \<in> set (rev c). py_isspace x" by (simp add: dropWhile_eq_Nil_conv)
    with c \<open>\<not> py_isspace (hd c)\<close> show False by (cases c) auto
  qed
  with l show ?thesis by (simp add: strip_def)
qed

subsection \<open>The class set that one reference writes\<close>

lemma class_set_no_space: "x \<in> set (class_set el) \<Longrightarrow> CHR '' '' \<notin> set x"
  using split_on_piece_no_sep set_strip
  by (fastforce simp: class_set_def split: option.splits)

lemma class_set_tokens: "strip ` set (class_set el) - {[]} = class_tokens el"
  by (auto simp: class_set_def class_tokens_def tokens_def strip_idem image_image split: option.splits)

lemma class_tokens_write_classes:
  assumes "iteration_order ord" and "\<forall>x \<in> set mc. CHR '' '' \<notin> set x"
  shows "class_tokens (write_classes ord mc el)
         = (if mc = [] then class_tokens el else strip ` set mc - {[]})"
  using tokens_written[OF assms(1) _ assms(2)]
  by (simp add: class_tokens_def write_classes_def)

lemma marker_ids_write_classes: "marker_ids (write_classes ord mc el) = marker_ids el"
  by (simp add: marker_ids_def attr_get_write_classes)

lemma force_fill_class_set:
  assumes "force_fill_class ff classes m = Inr mc"
  shows "set m \<subseteq> set mc"
    and "\<not> ff \<Longrightarrow> mc = m"
    and "ff \<Longrightarrow> classes = c # cs \<Longrightarrow>
         \<exists>x color rest. split_on CHR ''-'' c = x # color # rest
            \<and> mc = List.insert (''fill-'' @ color) m"
    and "\<forall>y \<in> set classes. CHR '' '' \<notin> set y \<Longrightarrow> \<forall>y \<in> set m. CHR '' '' \<notin> set y \<Longrightarrow>
         \<forall>y \<in> set mc. CHR '' '' \<notin> set y"
proof -
  show "set m \<subseteq> set mc" using assms
    by (auto simp: force_fill_class_def split: if_splits list.splits)
  show "\<not> ff \<Longrightarrow> mc = m" using assms by (simp add: force_fill_class_def)
  show "ff \<Longrightarrow> classes = c # cs \<Longrightarrow>
         \<exists>x color rest. split_on CHR ''-'' c = x # color # rest
            \<and> mc = List.insert (''fill-'' @ color) m"
    using assms by (auto simp: force_fill_class_def split: list.splits)
  show "\<forall>y \<in> set mc. CHR '' '' \<notin> set y"
    if a: "\<forall>y \<in> set classes. CHR '' '' \<notin> set y" and b: "\<forall>y \<in> set m. CHR '' '' \<notin> set y"
  proof (cases "ff \<and> length classes > 0")
    case False
    with assms b show ?thesis by (auto simp: force_fill_class_def)
  next
    case True
    then obtain c cs where cl: "classes = c # cs" by (cases classes) auto
    with True assms obtain x color rest where sp: "split_on CHR ''-'' c = x # color # rest"
      and mc: "mc = List.insert (''fill-'' @ color) m"
      by (auto simp: force_fill_class_def split: list.splits)
    have "color \<in> set (split_on CHR ''-'' c)" by (simp add: sp)
    then have "set color \<subseteq> set c" by (rule split_on_piece_subset)
    moreover from a cl have "CHR '' '' \<notin> set c" by simp
    ultimately have "CHR '' '' \<notin> set (''fill-'' @ color)" by auto
    with b mc show ?thesis by auto
  qed
qed

lemma classes_no_space:
  "\<forall>y \<in> set (filter prefixed (split_on CHR '' '' cls)). CHR '' '' \<notin> set y"
  using split_on_piece_no_sep by auto

lemma merged_no_space:
  "\<forall>y \<in> set (fold List.insert (filter prefixed (split_on CHR '' '' cls)) (class_set el)).
     CHR '' '' \<notin> set y"
  using classes_no_space class_set_no_space by (auto simp: set_fold_insert)

lemma strip_image_prefixed:
  "strip ` set (filter prefixed xs) - {[]} = strip ` set (filter prefixed xs)"
  using prefixed_strip by auto

lemma merged_tokens:
  "strip ` set (fold List.insert (filter prefixed xs) (class_set el)) - {[]}
   = class_tokens el \<union> strip ` set (filter prefixed xs)"
proof -
  have "strip ` set (fold List.insert (filter prefixed xs) (class_set el)) - {[]}
        = (strip ` set (class_set el) - {[]}) \<union> (strip ` set (filter prefixed xs) - {[]})"
    by (auto simp: set_fold_insert)
  then show ?thesis by (simp only: class_set_tokens strip_image_prefixed)
qed

lemma written_tokens:
  assumes ord: "iteration_order ord"
    and ffc: "force_fill_class ff (filter prefixed (split_on CHR '' '' cls))
                (fold List.insert (filter prefixed (split_on CHR '' '' cls)) (class_set el))
               = Inr mc"
  shows "class_tokens (write_classes ord mc el) = strip ` set mc - {[]}"
proof -
  have ns: "\<forall>y \<in> set mc. CHR '' '' \<notin> set y"
    using force_fill_class_set(4)[OF ffc classes_no_space merged_no_space] .
  have sub: "set (class_set el) \<subseteq> set mc"
    using force_fill_class_set(1)[OF ffc] by (auto simp: set_fold_insert)
  show ?thesis
  proof (cases "mc = []")
    case True
    with sub have "class_set el = []" by simp
    then have "class_tokens el = {}" using class_set_tokens[of el] by simp
    with True show ?thesis by (simp add: write_classes_def)
  next
    case False
    then show ?thesis by (simp add: class_tokens_write_classes[OF ord ns])
  qed
qed

subsection \<open>The lookup\<close>

lemma find_element_with_id_Some:
  assumes "CHR 0x27 \<notin> set marker_id" and "find_element_with_id pf doc marker_id = Inr (Some j)"
  shows "j < length doc \<and> 0 < j \<and> attr_get (doc ! j) ''id'' = Some marker_id"
proof -
  from assms obtain k where k: "first_index (\<lambda>el. attr_get el ''id'' = Some marker_id) (tl doc) = Some k"
    and j: "j = Suc k"
    by (auto simp: find_element_with_id_def split: if_splits)
  from first_index_Some[OF k] have "k < length (tl doc)" and "attr_get (tl doc ! k) ''id'' = Some marker_id"
    by simp_all
  with j show ?thesis by (cases doc) auto
qed

lemma find_element_with_id_stable:
  assumes "stable doc d" and "CHR 0x27 \<notin> set m"
  shows "find_element_with_id pf d m = find_element_with_id pf doc m"
proof -
  from assms(1) have len: "length (tl d) = length (tl doc)" by (simp add: stable_def)
  have "\<forall>k < length (tl d). (attr_get (tl d ! k) ''id'' = Some m) = (attr_get (tl doc ! k) ''id'' = Some m)"
  proof (intro allI impI)
    fix k assume k: "k < length (tl d)"
    with len have "tl d ! k = d ! Suc k" and "tl doc ! k = doc ! Suc k" and "Suc k < length doc"
      by (simp_all add: nth_tl)
    with assms(1) show "(attr_get (tl d ! k) ''id'' = Some m) = (attr_get (tl doc ! k) ''id'' = Some m)"
      by (simp add: stable_def)
  qed
  from first_index_cong[OF len this] assms(2) show ?thesis
    by (simp add: find_element_with_id_def)
qed

lemma no_target_lookup:
  assumes "CHR 0x27 \<notin> set marker_id" and "\<forall>el \<in> set doc. attr_get el ''id'' \<noteq> Some marker_id"
  shows "find_element_with_id pf doc marker_id = Inr None"
proof -
  have "set (tl doc) \<subseteq> set doc" by (cases doc) auto
  with assms(2) have "first_index (\<lambda>el. attr_get el ''id'' = Some marker_id) (tl doc) = None"
    by (auto simp: first_index_None)
  with assms(1) show ?thesis by (simp add: find_element_with_id_def)
qed

subsection \<open>References of an element\<close>

lemma marker_ids_piece:
  assumes "marker_id \<in> set (marker_ids el)"
  shows "\<exists>style_attr style. attr_get el ''style'' = Some style_attr
           \<and> style \<in> set (split_on CHR '';'' style_attr)
           \<and> marker_regex (strip style) = Some marker_id"
proof (cases "attr_get el ''style''")
  case None
  with assms show ?thesis by (simp add: marker_ids_def List.map_filter_def)
next
  case (Some style_attr)
  with assms show ?thesis by (auto simp: marker_ids_def List.map_filter_def)
qed

lemma marker_ids_member:
  assumes "attr_get el ''style'' = Some style_attr"
    and "style \<in> set (split_on CHR '';'' style_attr)"
    and "marker_regex (strip style) = Some marker_id"
  shows "marker_id \<in> set (marker_ids el)"
  using assms by (force simp: marker_ids_def List.map_filter_def)

lemma marker_ids_stable: "stable doc d \<Longrightarrow> k < length doc \<Longrightarrow> marker_ids (d ! k) = marker_ids (doc ! k)"
  by (simp add: stable_def marker_ids_def)

lemma referenced_ids_member: "k < length doc \<Longrightarrow> m \<in> set (marker_ids (doc ! k)) \<Longrightarrow> m \<in> set (referenced_ids doc)"
  by (auto simp: referenced_ids_def)

lemma stable_refl: "stable doc doc"
  by (simp add: stable_def)

lemma stable_trans: "stable a b \<Longrightarrow> stable b c \<Longrightarrow> stable a c"
  by (auto simp: stable_def)

lemma grows_refl: "grows doc doc"
  by (simp add: grows_def)

lemma grows_trans: "grows a b \<Longrightarrow> grows b c \<Longrightarrow> grows a c"
  by (fastforce simp: grows_def)

lemma stable_no_target:
  assumes "stable doc0 doc" and "\<forall>el \<in> set doc0. attr_get el ''id'' \<noteq> Some marker_id"
  shows "\<forall>el \<in> set doc. attr_get el ''id'' \<noteq> Some marker_id"
proof
  fix el assume "el \<in> set doc"
  then obtain k where k: "k < length doc" and el: "el = doc ! k"
    by (auto simp: in_set_conv_nth)
  with assms(1) have "attr_get el ''id'' = attr_get (doc0 ! k) ''id''" and "k < length doc0"
    by (simp_all add: stable_def)
  with assms(2) show "attr_get el ''id'' \<noteq> Some marker_id" by auto
qed

section \<open>One reference, one element, one run\<close>

subsection \<open>What a piece of a style attribute does\<close>

lemma propagate_no_class:
  "attr_get (doc ! i) ''class'' = None \<Longrightarrow> propagate ord pf ff i style doc = Inr doc"
  by (simp add: propagate_def split: option.splits)

lemma propagate_no_ref:
  "marker_regex (strip style) = None \<Longrightarrow> propagate ord pf ff i style doc = Inr doc"
  by (simp add: propagate_def)

lemma propagate_at_target:
  assumes "attr_get (doc ! i) ''class'' = Some cls"
    and "marker_regex (strip style) = Some marker_id"
    and "find_element_with_id pf doc marker_id = Inr (Some j)"
  shows "propagate ord pf ff i style doc =
     (case force_fill_class ff (filter prefixed (split_on CHR '' '' cls))
             (fold List.insert (filter prefixed (split_on CHR '' '' cls)) (class_set (doc ! j))) of
        Inl e \<Rightarrow> Inl e
      | Inr mc \<Rightarrow> Inr (doc[j := write_classes ord mc (doc ! j)]))"
  using assms by (simp add: propagate_def Let_def)

lemma propagate_Inr:
  assumes "propagate ord pf ff i style doc = Inr doc'"
  shows "doc' = doc
       \<or> (\<exists>marker_id cls j mc.
             marker_regex (strip style) = Some marker_id
           \<and> attr_get (doc ! i) ''class'' = Some cls
           \<and> find_element_with_id pf doc marker_id = Inr (Some j)
           \<and> j < length doc
           \<and> force_fill_class ff (filter prefixed (split_on CHR '' '' cls))
                (fold List.insert (filter prefixed (split_on CHR '' '' cls)) (class_set (doc ! j)))
               = Inr mc
           \<and> doc' = doc[j := write_classes ord mc (doc ! j)])"
proof -
  from assms have "doc' = doc
       \<or> (\<exists>marker_id cls j mc.
             marker_regex (strip style) = Some marker_id
           \<and> attr_get (doc ! i) ''class'' = Some cls
           \<and> find_element_with_id pf doc marker_id = Inr (Some j)
           \<and> force_fill_class ff (filter prefixed (split_on CHR '' '' cls))
                (fold List.insert (filter prefixed (split_on CHR '' '' cls)) (class_set (doc ! j)))
               = Inr mc
           \<and> doc' = doc[j := write_classes ord mc (doc ! j)])"
    by (auto simp: propagate_def Let_def split: option.splits sum.splits)
  then show ?thesis
  proof
    assume "doc' = doc"
    then show ?thesis by simp
  next
    assume "\<exists>marker_id cls j mc.
             marker_regex (strip style) = Some marker_id
           \<and> attr_get (doc ! i) ''class'' = Some cls
           \<and> find_element_with_id pf doc marker_id = Inr (Some j)
           \<and> force_fill_class ff (filter prefixed (split_on CHR '' '' cls))
                (fold List.insert (filter prefixed (split_on CHR '' '' cls)) (class_set (doc ! j)))
               = Inr mc
           \<and> doc' = doc[j := write_classes ord mc (doc ! j)]"
    then obtain marker_id cls j mc where
      h: "marker_regex (strip style) = Some marker_id"
         "attr_get (doc ! i) ''class'' = Some cls"
         "find_element_with_id pf doc marker_id = Inr (Some j)"
         "force_fill_class ff (filter prefixed (split_on CHR '' '' cls))
                (fold List.insert (filter prefixed (split_on CHR '' '' cls)) (class_set (doc ! j)))
               = Inr mc"
         "doc' = doc[j := write_classes ord mc (doc ! j)]"
      by blast
    show ?thesis
    proof (cases "j < length doc")
      case True
      with h show ?thesis by blast
    next
      case False
      with h(5) have "doc' = doc" by (simp add: list_update_beyond)
      then show ?thesis by simp
    qed
  qed
qed

lemma propagate_stable:
  assumes "propagate ord pf ff i style doc = Inr doc'"
  shows "stable doc doc'"
proof -
  from propagate_Inr[OF assms] show ?thesis
  proof
    assume "doc' = doc"
    then show ?thesis by (simp add: stable_refl)
  next
    assume "\<exists>marker_id cls j mc.
             marker_regex (strip style) = Some marker_id
           \<and> attr_get (doc ! i) ''class'' = Some cls
           \<and> find_element_with_id pf doc marker_id = Inr (Some j)
           \<and> j < length doc
           \<and> force_fill_class ff (filter prefixed (split_on CHR '' '' cls))
                (fold List.insert (filter prefixed (split_on CHR '' '' cls)) (class_set (doc ! j)))
               = Inr mc
           \<and> doc' = doc[j := write_classes ord mc (doc ! j)]"
    then obtain j mc where doc': "doc' = doc[j := write_classes ord mc (doc ! j)]"
      and j: "j < length doc"
      by blast
    show ?thesis
      unfolding stable_def doc'
      by (auto simp: nth_list_update[OF j] attr_get_write_classes)
  qed
qed

lemma propagate_grows:
  assumes "iteration_order ord" and "propagate ord pf ff i style doc = Inr doc'"
  shows "grows doc doc'"
proof -
  from propagate_Inr[OF assms(2)] show ?thesis
  proof
    assume "doc' = doc"
    then show ?thesis by (simp add: grows_refl)
  next
    assume "\<exists>marker_id cls j mc.
             marker_regex (strip style) = Some marker_id
           \<and> attr_get (doc ! i) ''class'' = Some cls
           \<and> find_element_with_id pf doc marker_id = Inr (Some j)
           \<and> j < length doc
           \<and> force_fill_class ff (filter prefixed (split_on CHR '' '' cls))
                (fold List.insert (filter prefixed (split_on CHR '' '' cls)) (class_set (doc ! j)))
               = Inr mc
           \<and> doc' = doc[j := write_classes ord mc (doc ! j)]"
    then obtain cls j mc where j: "j < length doc"
      and ff: "force_fill_class ff (filter prefixed (split_on CHR '' '' cls))
                (fold List.insert (filter prefixed (split_on CHR '' '' cls)) (class_set (doc ! j)))
               = Inr mc"
      and doc': "doc' = doc[j := write_classes ord mc (doc ! j)]"
      by blast
    have sub: "set (class_set (doc ! j)) \<subseteq> set mc"
      using force_fill_class_set(1)[OF ff] by (auto simp: set_fold_insert)
    have "class_tokens (doc ! j) = strip ` set (class_set (doc ! j)) - {[]}"
      by (simp only: class_set_tokens)
    also have "\<dots> \<subseteq> strip ` set mc - {[]}" using sub by auto
    finally have "class_tokens (doc ! j) \<subseteq> class_tokens (write_classes ord mc (doc ! j))"
      by (simp only: written_tokens[OF assms(1) ff])
    with j show ?thesis
      by (auto simp: grows_def doc' nth_list_update)
  qed
qed

lemma propagate_keeps:
  assumes run: "propagate ord pf ff i style d = Inr d'"
    and ref: "\<forall>m. marker_regex (strip style) = Some m
                \<longrightarrow> CHR 0x27 \<notin> set m \<and> attr_get (d ! k) ''id'' \<noteq> Some m"
  shows "d' ! k = d ! k"
proof -
  from propagate_Inr[OF run] show ?thesis
  proof
    assume "d' = d"
    then show ?thesis by simp
  next
    assume "\<exists>marker_id cls j mc.
             marker_regex (strip style) = Some marker_id
           \<and> attr_get (d ! i) ''class'' = Some cls
           \<and> find_element_with_id pf d marker_id = Inr (Some j)
           \<and> j < length d
           \<and> force_fill_class ff (filter prefixed (split_on CHR '' '' cls))
                (fold List.insert (filter prefixed (split_on CHR '' '' cls)) (class_set (d ! j)))
               = Inr mc
           \<and> d' = d[j := write_classes ord mc (d ! j)]"
    then obtain marker_id j mc where m: "marker_regex (strip style) = Some marker_id"
      and tgt: "find_element_with_id pf d marker_id = Inr (Some j)"
      and d': "d' = d[j := write_classes ord mc (d ! j)]"
      by blast
    from ref m have pl: "CHR 0x27 \<notin> set marker_id" and ne: "attr_get (d ! k) ''id'' \<noteq> Some marker_id"
      by simp_all
    from find_element_with_id_Some[OF pl tgt] ne have "j \<noteq> k" by auto
    then show ?thesis by (simp add: d')
  qed
qed

subsection \<open>The pieces of one style attribute\<close>

lemma propagate_styles_append:
  "propagate_styles ord pf ff i (xs @ ys) d =
     (case propagate_styles ord pf ff i xs d of
        Inl e \<Rightarrow> Inl e
      | Inr d' \<Rightarrow> propagate_styles ord pf ff i ys d')"
  by (induction xs arbitrary: d) (simp_all split: sum.splits)

lemma propagate_styles_invariant:
  assumes "propagate_styles ord pf ff i segs d = Inr d'" and "P d"
    and "\<And>s a b. s \<in> set segs \<Longrightarrow> P a \<Longrightarrow> propagate ord pf ff i s a = Inr b \<Longrightarrow> P b"
  shows "P d'"
  using assms
proof (induction segs arbitrary: d)
  case Nil
  then show ?case by simp
next
  case (Cons s rest)
  from Cons.prems(1) obtain a where p: "propagate ord pf ff i s d = Inr a"
    and r: "propagate_styles ord pf ff i rest a = Inr d'"
    by (auto split: sum.splits)
  from Cons.prems(3)[OF _ Cons.prems(2) p] have a: "P a" by simp
  show ?case
  proof (rule Cons.IH[OF r a])
    fix s' x y
    assume "s' \<in> set rest" and "P x" and "propagate ord pf ff i s' x = Inr y"
    then show "P y" using Cons.prems(3)[of s' x y] by simp
  qed
qed

lemma propagate_styles_no_class:
  "attr_get (doc ! i) ''class'' = None \<Longrightarrow> propagate_styles ord pf ff i segs doc = Inr doc"
  by (induction segs) (simp_all add: propagate_no_class)

lemma propagate_styles_no_ref:
  "\<forall>s \<in> set segs. marker_regex (strip s) = None \<Longrightarrow> propagate_styles ord pf ff i segs doc = Inr doc"
  by (induction segs) (simp_all add: propagate_no_ref)

lemma propagate_styles_stable:
  assumes "propagate_styles ord pf ff i segs doc = Inr doc'"
  shows "stable doc doc'"
  using assms stable_refl
proof (rule propagate_styles_invariant)
  fix s a b
  assume "stable doc a" and "propagate ord pf ff i s a = Inr b"
  then show "stable doc b" using propagate_stable stable_trans by blast
qed

lemma propagate_styles_grows:
  assumes "iteration_order ord" and "propagate_styles ord pf ff i segs doc = Inr doc'"
  shows "grows doc doc'"
  using assms(2) grows_refl
proof (rule propagate_styles_invariant)
  fix s a b
  assume "grows doc a" and "propagate ord pf ff i s a = Inr b"
  then show "grows doc b" using propagate_grows[OF assms(1)] grows_trans by blast
qed

lemma propagate_styles_keeps:
  assumes run: "propagate_styles ord pf ff i segs d = Inr d'"
    and k: "k < length d"
    and refs: "\<forall>s \<in> set segs. \<forall>m. marker_regex (strip s) = Some m
                \<longrightarrow> CHR 0x27 \<notin> set m \<and> attr_get (d ! k) ''id'' \<noteq> Some m"
  shows "d' ! k = d ! k"
proof -
  have "stable d d' \<and> d' ! k = d ! k"
    using run
  proof (rule propagate_styles_invariant)
    show "stable d d \<and> d ! k = d ! k" by (simp add: stable_refl)
  next
    fix s a b
    assume s: "s \<in> set segs" and a: "stable d a \<and> a ! k = d ! k"
      and p: "propagate ord pf ff i s a = Inr b"
    from a have "a ! k = d ! k" by simp
    with refs s have "\<forall>m. marker_regex (strip s) = Some m
                \<longrightarrow> CHR 0x27 \<notin> set m \<and> attr_get (a ! k) ''id'' \<noteq> Some m"
      by simp
    from propagate_keeps[OF p this] a have "b ! k = d ! k" by simp
    moreover from a propagate_stable[OF p] have "stable d b" using stable_trans by blast
    ultimately show "stable d b \<and> b ! k = d ! k" by simp
  qed
  then show ?thesis by simp
qed

subsection \<open>The visit of one element\<close>

lemma visit_no_class:
  "attr_get (doc ! i) ''class'' = None \<Longrightarrow> visit ord pf ff i doc = Inr doc"
  by (simp add: visit_def propagate_styles_no_class split: option.splits)

lemma visit_no_refs:
  assumes "marker_ids (doc ! i) = []"
  shows "visit ord pf ff i doc = Inr doc"
proof (cases "attr_get (doc ! i) ''style''")
  case None
  then show ?thesis by (simp add: visit_def)
next
  case (Some style_attr)
  with assms have "\<forall>s \<in> set (split_on CHR '';'' style_attr). marker_regex (strip s) = None"
    by (auto simp: marker_ids_def List.map_filter_def filter_empty_conv)
  with Some show ?thesis by (simp add: visit_def propagate_styles_no_ref)
qed

lemma visit_stable: "visit ord pf ff i doc = Inr doc' \<Longrightarrow> stable doc doc'"
  by (auto simp: visit_def stable_refl split: option.splits dest: propagate_styles_stable)

lemma visit_grows:
  "iteration_order ord \<Longrightarrow> visit ord pf ff i doc = Inr doc' \<Longrightarrow> grows doc doc'"
  by (auto simp: visit_def grows_refl split: option.splits dest: propagate_styles_grows)

lemma visit_keeps:
  assumes run: "visit ord pf ff n d = Inr d'"
    and k: "k < length d"
    and refs: "\<forall>m \<in> set (marker_ids (d ! n)). CHR 0x27 \<notin> set m \<and> attr_get (d ! k) ''id'' \<noteq> Some m"
  shows "d' ! k = d ! k"
proof (cases "attr_get (d ! n) ''style''")
  case None
  with run show ?thesis by (simp add: visit_def)
next
  case (Some style_attr)
  with run have r: "propagate_styles ord pf ff n (split_on CHR '';'' style_attr) d = Inr d'"
    by (simp add: visit_def)
  have "\<forall>s \<in> set (split_on CHR '';'' style_attr). \<forall>m. marker_regex (strip s) = Some m
                \<longrightarrow> CHR 0x27 \<notin> set m \<and> attr_get (d ! k) ''id'' \<noteq> Some m"
    using marker_ids_member[OF Some] refs by blast
  from propagate_styles_keeps[OF r k this] show ?thesis .
qed

subsection \<open>The run over the elements\<close>

lemma visit_all_append:
  "visit_all ord pf ff (xs @ ys) d =
     (case visit_all ord pf ff xs d of
        Inl e \<Rightarrow> Inl e
      | Inr d' \<Rightarrow> visit_all ord pf ff ys d')"
  by (induction xs arbitrary: d) (simp_all split: sum.splits)

lemma visit_all_invariant:
  assumes "visit_all ord pf ff ns d = Inr d'" and "P d"
    and "\<And>n a b. n \<in> set ns \<Longrightarrow> P a \<Longrightarrow> visit ord pf ff n a = Inr b \<Longrightarrow> P b"
  shows "P d'"
  using assms
proof (induction ns arbitrary: d)
  case Nil
  then show ?case by simp
next
  case (Cons n rest)
  from Cons.prems(1) obtain a where p: "visit ord pf ff n d = Inr a"
    and r: "visit_all ord pf ff rest a = Inr d'"
    by (auto split: sum.splits)
  from Cons.prems(3)[OF _ Cons.prems(2) p] have a: "P a" by simp
  show ?case
  proof (rule Cons.IH[OF r a])
    fix n' x y
    assume "n' \<in> set rest" and "P x" and "visit ord pf ff n' x = Inr y"
    then show "P y" using Cons.prems(3)[of n' x y] by simp
  qed
qed

lemma visit_all_grows:
  assumes "iteration_order ord" and "visit_all ord pf ff ns doc = Inr doc'"
  shows "grows doc doc'"
  using assms(2) grows_refl
proof (rule visit_all_invariant)
  fix n a b
  assume "grows doc a" and "visit ord pf ff n a = Inr b"
  then show "grows doc b" using visit_grows[OF assms(1)] grows_trans by blast
qed

lemma visit_all_no_refs:
  "\<forall>n \<in> set ns. marker_ids (d ! n) = [] \<Longrightarrow> visit_all ord pf ff ns d = Inr d"
  by (induction ns) (simp_all add: visit_no_refs)

text \<open>
  In a tree with plain ids, a visit leaves an element that is not a target as it is.
\<close>

lemma visit_not_target:
  assumes pl: "plain_ids doc" and nt: "not_target k doc" and k: "k < length doc"
    and n: "n < length doc" and st: "stable doc a" and same: "a ! k = doc ! k"
    and run: "visit ord pf ff n a = Inr b"
  shows "b ! k = doc ! k"
proof -
  from st k have ka: "k < length a" by (simp add: stable_def)
  have "\<forall>m \<in> set (marker_ids (a ! n)). CHR 0x27 \<notin> set m \<and> attr_get (a ! k) ''id'' \<noteq> Some m"
  proof
    fix m assume "m \<in> set (marker_ids (a ! n))"
    with marker_ids_stable[OF st n] have "m \<in> set (marker_ids (doc ! n))" by simp
    from referenced_ids_member[OF n this] pl nt same
    show "CHR 0x27 \<notin> set m \<and> attr_get (a ! k) ''id'' \<noteq> Some m"
      by (simp add: plain_ids_def not_target_def)
  qed
  from visit_keeps[OF run ka this] same show ?thesis by simp
qed

lemma visit_all_not_target:
  assumes pl: "plain_ids doc" and nt: "not_target k doc" and k: "k < length doc"
    and ns: "\<forall>n \<in> set ns. n < length doc"
    and run: "visit_all ord pf ff ns doc = Inr d"
  shows "stable doc d \<and> d ! k = doc ! k"
  using run
proof (rule visit_all_invariant)
  show "stable doc doc \<and> doc ! k = doc ! k" by (simp add: stable_refl)
next
  fix n a b
  assume n: "n \<in> set ns" and a: "stable doc a \<and> a ! k = doc ! k"
    and v: "visit ord pf ff n a = Inr b"
  from n ns have nl: "n < length doc" by simp
  from a have st: "stable doc a" and same: "a ! k = doc ! k" by simp_all
  from visit_not_target[OF pl nt k nl st same v] have "b ! k = doc ! k" .
  moreover from st visit_stable[OF v] have "stable doc b" using stable_trans by blast
  ultimately show "stable doc b \<and> b ! k = doc ! k" by simp
qed

subsection \<open>A reference in a run that completes\<close>

lemma propagate_styles_reference:
  assumes ord: "iteration_order ord" and i: "i < length doc"
    and cls: "attr_get (doc ! i) ''class'' = Some cls"
    and ref: "marker_regex (strip style) = Some m"
    and tgt: "find_element_with_id pf doc m = Inr (Some j)"
  shows "propagate_styles ord pf ff i segs d = Inr d' \<Longrightarrow> style \<in> set segs \<Longrightarrow>
         stable doc d \<Longrightarrow> d ! i = doc ! i \<Longrightarrow>
         (\<forall>s \<in> set segs. \<forall>m'. marker_regex (strip s) = Some m'
             \<longrightarrow> CHR 0x27 \<notin> set m' \<and> attr_get (doc ! i) ''id'' \<noteq> Some m') \<Longrightarrow>
         \<exists>merged mc. set (filter prefixed (split_on CHR '' '' cls)) \<subseteq> set merged
            \<and> force_fill_class ff (filter prefixed (split_on CHR '' '' cls)) merged = Inr mc
            \<and> strip ` set mc - {[]} \<subseteq> class_tokens (d' ! j)"
proof (induction segs arbitrary: d)
  case Nil
  then show ?case by simp
next
  case (Cons s rest)
  let ?classes = "filter prefixed (split_on CHR '' '' cls)"
  from Cons.prems(1) obtain a where p: "propagate ord pf ff i s d = Inr a"
    and r: "propagate_styles ord pf ff i rest a = Inr d'"
    by (auto split: sum.splits)
  from Cons.prems(4,5) have rs: "\<forall>m'. marker_regex (strip s) = Some m'
             \<longrightarrow> CHR 0x27 \<notin> set m' \<and> attr_get (d ! i) ''id'' \<noteq> Some m'"
    by simp
  from propagate_keeps[OF p rs] Cons.prems(4) have same: "a ! i = doc ! i" by simp
  from Cons.prems(3) propagate_stable[OF p] have st: "stable doc a" by (rule stable_trans)
  show ?case
  proof (cases "s = style")
    case True
    with rs ref have pl: "CHR 0x27 \<notin> set m" by simp
    from find_element_with_id_stable[OF Cons.prems(3) pl] tgt
    have t: "find_element_with_id pf d m = Inr (Some j)" by simp
    from find_element_with_id_Some[OF pl t] have j: "j < length d" by simp
    from cls Cons.prems(4) have c: "attr_get (d ! i) ''class'' = Some cls" by simp
    from p True have "(case force_fill_class ff ?classes (fold List.insert ?classes (class_set (d ! j))) of
        Inl e \<Rightarrow> Inl e
      | Inr mc \<Rightarrow> Inr (d[j := write_classes ord mc (d ! j)])) = Inr a"
      by (simp only: propagate_at_target[OF c ref t])
    then obtain mc where
      ffc: "force_fill_class ff ?classes (fold List.insert ?classes (class_set (d ! j))) = Inr mc"
      and a: "a = d[j := write_classes ord mc (d ! j)]"
      by (auto split: sum.splits)
    from a j have "class_tokens (a ! j) = class_tokens (write_classes ord mc (d ! j))" by simp
    then have w: "class_tokens (a ! j) = strip ` set mc - {[]}"
      by (simp only: written_tokens[OF ord ffc])
    from a j have "j < length a" by simp
    with propagate_styles_grows[OF ord r]
    have "class_tokens (a ! j) \<subseteq> class_tokens (d' ! j)" unfolding grows_def by blast
    with w have "strip ` set mc - {[]} \<subseteq> class_tokens (d' ! j)" by simp
    moreover have "set ?classes \<subseteq> set (fold List.insert ?classes (class_set (d ! j)))"
      by (simp add: set_fold_insert)
    ultimately show ?thesis using ffc by blast
  next
    case False
    with Cons.prems(2) have "style \<in> set rest" by simp
    from Cons.IH[OF r this st same] Cons.prems(5) show ?thesis by simp
  qed
qed

lemma visit_reference:
  assumes ord: "iteration_order ord" and i: "i < length doc"
    and cls: "attr_get (doc ! i) ''class'' = Some cls"
    and ref: "m \<in> set (marker_ids (doc ! i))"
    and tgt: "find_element_with_id pf doc m = Inr (Some j)"
    and refs: "\<forall>m' \<in> set (marker_ids (doc ! i)). CHR 0x27 \<notin> set m' \<and> attr_get (doc ! i) ''id'' \<noteq> Some m'"
    and st: "stable doc d" and same: "d ! i = doc ! i"
    and run: "visit ord pf ff i d = Inr d'"
  shows "\<exists>merged mc. set (filter prefixed (split_on CHR '' '' cls)) \<subseteq> set merged
            \<and> force_fill_class ff (filter prefixed (split_on CHR '' '' cls)) merged = Inr mc
            \<and> strip ` set mc - {[]} \<subseteq> class_tokens (d' ! j)"
proof -
  from marker_ids_piece[OF ref] obtain style_attr style where
    sa: "attr_get (doc ! i) ''style'' = Some style_attr"
    and seg: "style \<in> set (split_on CHR '';'' style_attr)"
    and r: "marker_regex (strip style) = Some m"
    by blast
  from sa same run have p: "propagate_styles ord pf ff i (split_on CHR '';'' style_attr) d = Inr d'"
    by (simp add: visit_def)
  have "\<forall>s \<in> set (split_on CHR '';'' style_attr). \<forall>m'. marker_regex (strip s) = Some m'
             \<longrightarrow> CHR 0x27 \<notin> set m' \<and> attr_get (doc ! i) ''id'' \<noteq> Some m'"
    using marker_ids_member[OF sa] refs by blast
  from propagate_styles_reference[OF ord i cls r tgt p seg st same this] show ?thesis .
qed

lemma run_reference:
  assumes ord: "iteration_order ord" and i: "i < length doc"
    and cls: "attr_get (doc ! i) ''class'' = Some cls"
    and ref: "m \<in> set (marker_ids (doc ! i))"
    and pl: "plain_ids doc" and nt: "not_target i doc"
    and tgt: "find_element_with_id pf doc m = Inr (Some j)"
    and run: "deal_with_markers ord pf ff doc = Inr doc'"
  shows "\<exists>merged mc. set (filter prefixed (split_on CHR '' '' cls)) \<subseteq> set merged
            \<and> force_fill_class ff (filter prefixed (split_on CHR '' '' cls)) merged = Inr mc
            \<and> strip ` set mc - {[]} \<subseteq> class_tokens (doc' ! j)"
proof -
  from run have "visit_all ord pf ff ([0..<i] @ i # [Suc i..<length doc]) doc = Inr doc'"
    by (simp only: deal_with_markers_def upt_split[OF i, symmetric])
  then obtain d1 d2 where r1: "visit_all ord pf ff [0..<i] doc = Inr d1"
    and r2: "visit ord pf ff i d1 = Inr d2"
    and r3: "visit_all ord pf ff [Suc i..<length doc] d2 = Inr doc'"
    by (auto simp: visit_all_append split: sum.splits)
  have "\<forall>n \<in> set [0..<i]. n < length doc" using i by simp
  from visit_all_not_target[OF pl nt i this r1]
  have st: "stable doc d1" and same: "d1 ! i = doc ! i" by simp_all
  have refs: "\<forall>m' \<in> set (marker_ids (doc ! i)). CHR 0x27 \<notin> set m' \<and> attr_get (doc ! i) ''id'' \<noteq> Some m'"
    using referenced_ids_member[OF i] pl nt by (simp add: plain_ids_def not_target_def)
  from visit_reference[OF ord i cls ref tgt refs st same r2] obtain merged mc where
    h: "set (filter prefixed (split_on CHR '' '' cls)) \<subseteq> set merged"
       "force_fill_class ff (filter prefixed (split_on CHR '' '' cls)) merged = Inr mc"
       "strip ` set mc - {[]} \<subseteq> class_tokens (d2 ! j)"
    by blast
  from referenced_ids_member[OF i ref] pl have "CHR 0x27 \<notin> set m" by (simp add: plain_ids_def)
  from find_element_with_id_Some[OF this tgt] have j: "j < length doc" by simp
  from st visit_stable[OF r2] have "stable doc d2" by (rule stable_trans)
  with j have "j < length d2" by (simp add: stable_def)
  with visit_all_grows[OF ord r3] have "class_tokens (d2 ! j) \<subseteq> class_tokens (doc' ! j)"
    by (simp add: grows_def)
  with h show ?thesis by blast
qed

subsection \<open>A tree with a single reference\<close>

lemma single_reference_run:
  assumes sr: "single_reference i m doc" and i: "i < length doc"
    and cls: "attr_get (doc ! i) ''class'' = Some cls"
    and tgt: "find_element_with_id pf doc m = Inr (Some j)"
  shows "deal_with_markers ord pf ff doc =
     (case force_fill_class ff (filter prefixed (split_on CHR '' '' cls))
             (fold List.insert (filter prefixed (split_on CHR '' '' cls)) (class_set (doc ! j))) of
        Inl e \<Rightarrow> Inl e
      | Inr mc \<Rightarrow> Inr (doc[j := write_classes ord mc (doc ! j)]))"
proof -
  let ?classes = "filter prefixed (split_on CHR '' '' cls)"
  let ?ffc = "force_fill_class ff ?classes (fold List.insert ?classes (class_set (doc ! j)))"
  from sr have one: "marker_ids (doc ! i) = [m]"
    and none: "\<forall>k < length doc. k \<noteq> i \<longrightarrow> marker_ids (doc ! k) = []"
    by (simp_all add: single_reference_def)
  from one obtain style_attr where sa: "attr_get (doc ! i) ''style'' = Some style_attr"
    by (cases "attr_get (doc ! i) ''style''") (auto simp: marker_ids_def)
  with one have "List.map_filter (\<lambda>style. marker_regex (strip style)) (split_on CHR '';'' style_attr) = [m]"
    by (simp add: marker_ids_def)
  from map_filter_single[OF this] obtain pre s post where
    segs: "split_on CHR '';'' style_attr = pre @ s # post"
    and s: "marker_regex (strip s) = Some m"
    and pre: "\<forall>x \<in> set pre. marker_regex (strip x) = None"
    and post: "\<forall>x \<in> set post. marker_regex (strip x) = None"
    by blast
  have v: "visit ord pf ff i doc =
     (case ?ffc of Inl e \<Rightarrow> Inl e | Inr mc \<Rightarrow> Inr (doc[j := write_classes ord mc (doc ! j)]))"
    by (simp add: visit_def sa segs propagate_styles_append propagate_styles_no_ref[OF pre]
        propagate_styles_no_ref[OF post] propagate_at_target[OF cls s tgt] split: sum.splits)
  have before: "visit_all ord pf ff [0..<i] doc = Inr doc"
    using none i by (intro visit_all_no_refs) simp
  have run: "deal_with_markers ord pf ff doc =
     (case visit ord pf ff i doc of
        Inl e \<Rightarrow> Inl e
      | Inr d \<Rightarrow> visit_all ord pf ff [Suc i..<length doc] d)"
    by (simp add: deal_with_markers_def upt_split[OF i] visit_all_append before)
  show ?thesis
  proof (cases ?ffc)
    case (Inl e)
    with run v show ?thesis by simp
  next
    case (Inr mc)
    let ?d = "doc[j := write_classes ord mc (doc ! j)]"
    have "\<forall>n \<in> set [Suc i..<length doc]. marker_ids (?d ! n) = []"
    proof
      fix n assume "n \<in> set [Suc i..<length doc]"
      then have n: "n < length doc" and ni: "n \<noteq> i" by simp_all
      from n have "marker_ids (?d ! n) = marker_ids (doc ! n)"
        by (cases "n = j") (simp_all add: marker_ids_write_classes)
      with none n ni show "marker_ids (?d ! n) = []" by simp
    qed
    then have "visit_all ord pf ff [Suc i..<length doc] ?d = Inr ?d"
      by (rule visit_all_no_refs)
    with run v Inr show ?thesis by simp
  qed
qed

subsection \<open>A reference without a target\<close>

lemma propagate_no_target:
  assumes "marker_regex (strip style) = Some marker_id" and "CHR 0x27 \<notin> set marker_id"
    and "attr_get (doc ! i) ''class'' \<noteq> None"
    and "\<forall>el \<in> set doc. attr_get el ''id'' \<noteq> Some marker_id"
  shows "propagate ord pf ff i style doc = Inl NoneDereference"
  using assms(1,3) no_target_lookup[OF assms(2,4), of pf]
  by (auto simp: propagate_def Let_def)

lemma propagate_styles_no_target:
  assumes "style \<in> set segs" and "marker_regex (strip style) = Some marker_id"
    and "CHR 0x27 \<notin> set marker_id"
    and "i < length doc0" and "attr_get (doc0 ! i) ''class'' \<noteq> None"
    and "\<forall>el \<in> set doc0. attr_get el ''id'' \<noteq> Some marker_id"
    and "stable doc0 doc"
  shows "\<exists>e. propagate_styles ord pf ff i segs doc = Inl e"
  using assms(1,7)
proof (induction segs arbitrary: doc)
  case Nil
  then show ?case by simp
next
  case (Cons s rest)
  show ?case
  proof (cases "propagate ord pf ff i s doc")
    case (Inl e)
    then show ?thesis by simp
  next
    case (Inr d)
    from Cons.prems(2) propagate_stable[OF Inr] have st: "stable doc0 d" by (rule stable_trans)
    show ?thesis
    proof (cases "s = style")
      case True
      from Cons.prems(2) assms(4,5) have "attr_get (doc ! i) ''class'' \<noteq> None"
        by (simp add: stable_def)
      from propagate_no_target[OF assms(2,3) this stable_no_target[OF Cons.prems(2) assms(6)], of ord pf ff]
        Inr True show ?thesis by simp
    next
      case False
      with Cons.prems(1) have "style \<in> set rest" by simp
      from Cons.IH[OF this st] Inr show ?thesis by simp
    qed
  qed
qed

lemma visit_no_target:
  assumes "marker_id \<in> set (marker_ids (doc0 ! i))" and "CHR 0x27 \<notin> set marker_id"
    and "i < length doc0" and "attr_get (doc0 ! i) ''class'' \<noteq> None"
    and "\<forall>el \<in> set doc0. attr_get el ''id'' \<noteq> Some marker_id"
    and "stable doc0 doc"
  shows "\<exists>e. visit ord pf ff i doc = Inl e"
proof -
  from marker_ids_piece[OF assms(1)] obtain style_attr style where
    sa: "attr_get (doc0 ! i) ''style'' = Some style_attr"
    and seg: "style \<in> set (split_on CHR '';'' style_attr)"
    and ref: "marker_regex (strip style) = Some marker_id"
    by blast
  from assms(3,6) sa have "attr_get (doc ! i) ''style'' = Some style_attr"
    by (simp add: stable_def)
  with propagate_styles_no_target[OF seg ref assms(2,3,4,5,6), of ord pf ff]
  show ?thesis by (simp add: visit_def)
qed

lemma visit_all_no_target:
  assumes "marker_id \<in> set (marker_ids (doc0 ! i))" and "CHR 0x27 \<notin> set marker_id"
    and "i < length doc0" and "attr_get (doc0 ! i) ''class'' \<noteq> None"
    and "\<forall>el \<in> set doc0. attr_get el ''id'' \<noteq> Some marker_id"
    and "i \<in> set ns" and "stable doc0 doc"
  shows "\<exists>e. visit_all ord pf ff ns doc = Inl e"
  using assms(6,7)
proof (induction ns arbitrary: doc)
  case Nil
  then show ?case by simp
next
  case (Cons n ns)
  show ?case
  proof (cases "visit ord pf ff n doc")
    case (Inl e)
    then show ?thesis by simp
  next
    case (Inr d)
    from Cons.prems(2) visit_stable[OF Inr] have st: "stable doc0 d" by (rule stable_trans)
    show ?thesis
    proof (cases "n = i")
      case True
      from visit_no_target[OF assms(1-5) Cons.prems(2), of ord pf ff] Inr True
      show ?thesis by auto
    next
      case False
      with Cons.prems(1) have "i \<in> set ns" by simp
      from Cons.IH[OF this st] Inr show ?thesis by simp
    qed
  qed
qed

lemma propagate_error_kind:
  assumes "propagate ord pf False i style doc = Inl e"
  shows "e = NoneDereference
       \<or> (\<exists>marker_id. marker_regex (strip style) = Some marker_id \<and> CHR 0x27 \<in> set marker_id)"
  using assms
  by (auto simp: propagate_def Let_def find_element_with_id_def force_fill_class_def
      split: option.splits sum.splits if_splits)

lemma propagate_styles_error_kind:
  assumes "\<forall>style \<in> set segs. \<forall>marker_id. marker_regex (strip style) = Some marker_id
             \<longrightarrow> CHR 0x27 \<notin> set marker_id"
    and "propagate_styles ord pf False i segs doc = Inl e"
  shows "e = NoneDereference"
  using assms
proof (induction segs arbitrary: doc)
  case Nil
  then show ?case by simp
next
  case (Cons s rest)
  show ?case
  proof (cases "propagate ord pf False i s doc")
    case (Inl e')
    with Cons.prems(2) have "e' = e" by simp
    with propagate_error_kind[OF Inl] Cons.prems(1) show ?thesis by auto
  next
    case (Inr d)
    with Cons.prems(2) have "propagate_styles ord pf False i rest d = Inl e" by simp
    with Cons.IH Cons.prems(1) show ?thesis by auto
  qed
qed

lemma visit_error_kind:
  assumes "stable doc0 doc" and "i < length doc0"
    and "\<forall>m \<in> set (marker_ids (doc0 ! i)). CHR 0x27 \<notin> set m"
    and "visit ord pf False i doc = Inl e"
  shows "e = NoneDereference"
proof (cases "attr_get (doc ! i) ''style''")
  case None
  with assms(4) show ?thesis by (simp add: visit_def)
next
  case (Some style_attr)
  with assms(1,2) have sa: "attr_get (doc0 ! i) ''style'' = Some style_attr"
    by (simp add: stable_def)
  have "\<forall>style \<in> set (split_on CHR '';'' style_attr). \<forall>marker_id.
          marker_regex (strip style) = Some marker_id \<longrightarrow> CHR 0x27 \<notin> set marker_id"
    using marker_ids_member[OF sa] assms(3) by blast
  moreover from Some assms(4)
  have "propagate_styles ord pf False i (split_on CHR '';'' style_attr) doc = Inl e"
    by (simp add: visit_def)
  ultimately show ?thesis by (rule propagate_styles_error_kind)
qed

lemma visit_all_error_kind:
  assumes "plain_ids doc0"
    and "\<forall>n \<in> set ns. n < length doc0" and "stable doc0 doc"
    and "visit_all ord pf False ns doc = Inl e"
  shows "e = NoneDereference"
  using assms(2-4)
proof (induction ns arbitrary: doc)
  case Nil
  then show ?case by simp
next
  case (Cons n ns)
  from Cons.prems(1) have n: "n < length doc0" by simp
  with assms(1) have q: "\<forall>m \<in> set (marker_ids (doc0 ! n)). CHR 0x27 \<notin> set m"
    using referenced_ids_member[OF n] by (simp add: plain_ids_def)
  show ?case
  proof (cases "visit ord pf False n doc")
    case (Inl e')
    with Cons.prems(3) have "e' = e" by simp
    with visit_error_kind[OF Cons.prems(2) n q Inl] show ?thesis by simp
  next
    case (Inr d)
    from Cons.prems(2) visit_stable[OF Inr] have st: "stable doc0 d" by (rule stable_trans)
    from Inr Cons.prems(3) have "visit_all ord pf False ns d = Inl e" by simp
    with Cons.IH[OF _ st] Cons.prems(1) show ?thesis by simp
  qed
qed

subsection \<open>An element without a class attribute\<close>

lemma visit_all_skip:
  assumes pl: "plain_ids doc" and nt: "not_target i doc" and i: "i < length doc"
    and nc: "attr_get (doc ! i) ''class'' = None"
  shows "\<forall>n \<in> set ns. n < length doc \<Longrightarrow> stable doc d \<Longrightarrow> d ! i = doc ! i \<Longrightarrow>
         visit_all ord pf ff ns d = visit_all ord pf ff (filter (\<lambda>k. k \<noteq> i) ns) d"
proof (induction ns arbitrary: d)
  case Nil
  then show ?case by simp
next
  case (Cons n ns)
  from Cons.prems(1) have nl: "n < length doc" and rest: "\<forall>n \<in> set ns. n < length doc"
    by simp_all
  show ?case
  proof (cases "n = i")
    case True
    from nc Cons.prems(3) have "visit ord pf ff i d = Inr d"
      by (simp add: visit_no_class)
    with True Cons.IH[OF rest Cons.prems(2,3)] show ?thesis by simp
  next
    case False
    show ?thesis
    proof (cases "visit ord pf ff n d")
      case (Inl e)
      with False show ?thesis by simp
    next
      case (Inr b)
      from visit_not_target[OF pl nt i nl Cons.prems(2,3) Inr] have same: "b ! i = doc ! i" .
      from Cons.prems(2) visit_stable[OF Inr] have st: "stable doc b" by (rule stable_trans)
      from Cons.IH[OF rest st same] Inr False show ?thesis by simp
    qed
  qed
qed

section \<open>Marker references of elements without a class attribute\<close>




section \<open>What a marker reference writes onto its target\<close>




section \<open>The class that force-fill derives\<close>




section \<open>Marker references without a target\<close>

text \<open>
  C7 (as amended). An element of the tree has a class attribute, a piece of its style
  attribute is a marker reference to an id without an apostrophe, and no element of the
  tree has the referenced id. Then the Marker Propagator does not complete: its run
  over the tree ends with an error. Without \<open>force_fill\<close>, and with no apostrophe in
  any referenced id of the tree, that error is the dereference of the missing target.
\<close>

theorem C7_missing_target_fails:
  assumes "i < length doc" and "attr_get (doc ! i) ''class'' \<noteq> None"
    and "marker_id \<in> set (marker_ids (doc ! i))" and "CHR 0x27 \<notin> set marker_id"
    and "\<forall>el \<in> set doc. attr_get el ''id'' \<noteq> Some marker_id"
  shows "(\<exists>e. deal_with_markers ord path_find force_fill doc = Inl e)
       \<and> (\<not> force_fill \<and> plain_ids doc
           \<longrightarrow> deal_with_markers ord path_find force_fill doc = Inl NoneDereference)"
proof -
  from assms(1) have "i \<in> set [0..<length doc]" by simp
  from visit_all_no_target[OF assms(3,4,1,2,5) this stable_refl, of ord path_find force_fill]
  obtain e where e: "deal_with_markers ord path_find force_fill doc = Inl e"
    by (auto simp: deal_with_markers_def)
  have "e = NoneDereference" if "\<not> force_fill" and q: "plain_ids doc"
  proof -
    from e that(1) have "visit_all ord path_find False [0..<length doc] doc = Inl e"
      by (simp add: deal_with_markers_def)
    moreover have "\<forall>n \<in> set [0..<length doc]. n < length doc" by simp
    ultimately show ?thesis
      using visit_all_error_kind[OF q _ stable_refl] by blast
  qed
  with e show ?thesis by auto
qed

theorem C7_missing_target_fails_witness:
  "deal_with_markers (\<lambda>xs. xs) (\<lambda>doc element_id. Inl PathSyntaxError) False
     [\<lparr>tag = ''svg'', attrib = [], el_text = None, depth = 0\<rparr>,
      \<lparr>tag = ''path'', attrib = [(''class'', ''fill-red''), (''style'', ''marker-end:url(#zz)'')],
        el_text = None, depth = 1\<rparr>,
      \<lparr>tag = ''marker'', attrib = [(''id'', ''m1'')], el_text = None, depth = 1\<rparr>]
   = Inl NoneDereference"
proof -
  let ?doc = "[\<lparr>tag = ''svg'', attrib = [], el_text = None, depth = 0\<rparr>,
      \<lparr>tag = ''path'', attrib = [(''class'', ''fill-red''), (''style'', ''marker-end:url(#zz)'')],
        el_text = None, depth = 1\<rparr>,
      \<lparr>tag = ''marker'', attrib = [(''id'', ''m1'')], el_text = None, depth = 1\<rparr>]"
  let ?pf = "\<lambda>doc element_id. Inl PathSyntaxError :: error + nat option"
  have a: "1 < length ?doc" by simp
  have b: "attr_get (?doc ! 1) ''class'' \<noteq> None" by code_simp
  have c: "''zz'' \<in> set (marker_ids (?doc ! 1))" by code_simp
  have p: "CHR 0x27 \<notin> set ''zz''" by simp
  have d: "\<forall>el \<in> set ?doc. attr_get el ''id'' \<noteq> Some ''zz''" by code_simp
  have q: "plain_ids ?doc" by code_simp
  from C7_missing_target_fails[OF a b c p d, of "\<lambda>xs. xs" ?pf False] q show ?thesis by blast
qed

text \<open>
  C7 as stated fails with \<open>force_fill\<close>: here an earlier reference, whose target exists,
  contributes the token \<open>fill\<close>, which has no \<open>-\<close>, and the run ends with the index
  error of the force-fill derivation before it reaches the reference without a target.
\<close>

theorem C7_index_error_counterexample:
  "deal_with_markers (\<lambda>xs. xs) (\<lambda>doc element_id. Inl PathSyntaxError) True
     [\<lparr>tag = ''svg'', attrib = [], el_text = None, depth = 0\<rparr>,
      \<lparr>tag = ''path'', attrib = [(''class'', ''fill''), (''style'', ''marker-end:url(#m1)'')],
        el_text = None, depth = 1\<rparr>,
      \<lparr>tag = ''marker'', attrib = [(''id'', ''m1'')], el_text = None, depth = 1\<rparr>,
      \<lparr>tag = ''path'', attrib = [(''class'', ''fill-red''), (''style'', ''marker-end:url(#zz)'')],
        el_text = None, depth = 1\<rparr>]
   = Inl IndexError"
  by code_simp

section \<open>Style declarations before plain attributes\<close>

text \<open>
  \<open>decl_value name color_mapping style\<close>: the value that the piece \<open>style\<close> of a style
  attribute declares for the property \<open>name\<close>, when that value is a key of the color
  mapping.
\<close>

definition decl_value :: "string \<Rightarrow> (string \<rightharpoonup> string) \<Rightarrow> string \<Rightarrow> string option" where
  "decl_value name color_mapping style =
     (case split_on CHR '':'' style of
        [a, v] \<Rightarrow> if strip a = name \<and> color_mapping (strip v) \<noteq> None then Some (strip v) else None
      | _ \<Rightarrow> None)"

text \<open>One turn of the loop of \<open>modify_style_attribute\<close>, on its own.\<close>

definition style_step :: "(string \<rightharpoonup> string) \<Rightarrow> string \<Rightarrow> string list \<times> attribute \<times> attribute
                            \<Rightarrow> error + string list \<times> attribute \<times> attribute" where
  "style_step cm style st = style_loop cm [style] st"

lemma style_loop_Cons:
  "style_loop cm (x # xs) st =
     (case style_step cm x st of Inl e \<Rightarrow> Inl e | Inr st' \<Rightarrow> style_loop cm xs st')"
proof -
  obtain u f s where st: "st = (u, f, s)" by (cases st)
  show ?thesis
  proof (cases "split_on CHR '':'' x")
    case Nil
    then show ?thesis by (simp add: st style_step_def)
  next
    case (Cons a r)
    show ?thesis
    proof (cases r)
      case Nil
      with Cons show ?thesis by (simp add: st style_step_def)
    next
      case c2: (Cons v r')
      show ?thesis
      proof (cases r')
        case Nil
        with Cons c2 show ?thesis by (auto simp: st style_step_def Let_def)
      next
        case c3: (Cons w r'')
        with Cons c2 show ?thesis by (simp add: st style_step_def)
      qed
    qed
  qed
qed

lemma style_loop_append:
  "style_loop cm (xs @ ys) st =
     (case style_loop cm xs st of Inl e \<Rightarrow> Inl e | Inr st' \<Rightarrow> style_loop cm ys st')"
proof (induction xs arbitrary: st)
  case Nil
  then show ?case by simp
next
  case (Cons x xs)
  show ?case
    unfolding append_Cons style_loop_Cons[of cm x]
    by (cases "style_step cm x st") (simp_all add: Cons.IH)
qed

lemma style_loop_fill_decl:
  assumes "decl_value ''fill'' cm seg = Some v"
  shows "style_loop cm (seg # rest) (u, f, s) =
         style_loop cm rest
           (u, \<lparr>is_set = True, attr_value = (if v \<noteq> ''none'' then Some v else attr_value f)\<rparr>, s)"
  using assms
  by (auto simp: decl_value_def Let_def split: list.splits if_splits)

lemma style_loop_stroke_decl:
  assumes "decl_value ''stroke'' cm seg = Some v"
  shows "style_loop cm (seg # rest) (u, f, s) =
         style_loop cm rest
           (u, f, \<lparr>is_set = True, attr_value = (if v \<noteq> ''none'' then Some v else attr_value s)\<rparr>)"
  using assms
  by (auto simp: decl_value_def Let_def split: list.splits if_splits)

lemma style_loop_fill_kept:
  assumes "\<forall>x \<in> set post. decl_value ''fill'' cm x = None \<or> decl_value ''fill'' cm x = Some ''none''"
    and "style_loop cm post (u, \<lparr>is_set = True, attr_value = Some v1\<rparr>, s) = Inr (u', f', s')"
  shows "f' = \<lparr>is_set = True, attr_value = Some v1\<rparr>"
  using assms
proof (induction post arbitrary: u s)
  case Nil
  then show ?case by simp
next
  case (Cons x post)
  from Cons.prems(1) have x: "decl_value ''fill'' cm x = None \<or> decl_value ''fill'' cm x = Some ''none''"
    and p: "\<forall>x \<in> set post. decl_value ''fill'' cm x = None \<or> decl_value ''fill'' cm x = Some ''none''"
    by simp_all
  from x show ?case
  proof
    assume "decl_value ''fill'' cm x = Some ''none''"
    from Cons.prems(2) have "style_loop cm post (u, \<lparr>is_set = True, attr_value = Some v1\<rparr>, s) = Inr (u', f', s')"
      unfolding style_loop_fill_decl[OF \<open>decl_value ''fill'' cm x = Some ''none''\<close>] by simp
    with Cons.IH[OF p] show ?thesis by simp
  next
    assume n: "decl_value ''fill'' cm x = None"
    from Cons.prems(2) obtain u1 s1 where
      "style_loop cm post (u1, \<lparr>is_set = True, attr_value = Some v1\<rparr>, s1) = Inr (u', f', s')"
      using n
      by (auto simp: decl_value_def Let_def split: list.splits if_splits)
    with Cons.IH[OF p] show ?thesis by simp
  qed
qed

lemma style_loop_stroke_kept:
  assumes "\<forall>x \<in> set post. decl_value ''stroke'' cm x = None \<or> decl_value ''stroke'' cm x = Some ''none''"
    and "style_loop cm post (u, f, \<lparr>is_set = True, attr_value = Some v1\<rparr>) = Inr (u', f', s')"
  shows "s' = \<lparr>is_set = True, attr_value = Some v1\<rparr>"
  using assms
proof (induction post arbitrary: u f)
  case Nil
  then show ?case by simp
next
  case (Cons x post)
  from Cons.prems(1) have x: "decl_value ''stroke'' cm x = None \<or> decl_value ''stroke'' cm x = Some ''none''"
    and p: "\<forall>x \<in> set post. decl_value ''stroke'' cm x = None \<or> decl_value ''stroke'' cm x = Some ''none''"
    by simp_all
  from x show ?case
  proof
    assume "decl_value ''stroke'' cm x = Some ''none''"
    from Cons.prems(2) have "style_loop cm post (u, f, \<lparr>is_set = True, attr_value = Some v1\<rparr>) = Inr (u', f', s')"
      unfolding style_loop_stroke_decl[OF \<open>decl_value ''stroke'' cm x = Some ''none''\<close>] by simp
    with Cons.IH[OF p] show ?thesis by simp
  next
    assume n: "decl_value ''stroke'' cm x = None"
    from Cons.prems(2) obtain u1 f1 where
      "style_loop cm post (u1, f1, \<lparr>is_set = True, attr_value = Some v1\<rparr>) = Inr (u', f', s')"
      using n
      by (auto simp: decl_value_def Let_def split: list.splits if_splits)
    with Cons.IH[OF p] show ?thesis by simp
  qed
qed

lemma style_loop_last_fill:
  assumes "decl_value ''fill'' cm seg = Some v1" and "v1 \<noteq> ''none''"
    and "\<forall>x \<in> set post. decl_value ''fill'' cm x = None \<or> decl_value ''fill'' cm x = Some ''none''"
    and "style_loop cm (pre @ seg # post) st = Inr (u', f', s')"
  shows "f' = \<lparr>is_set = True, attr_value = Some v1\<rparr>"
proof -
  from assms(4) obtain u f s where
    "style_loop cm (seg # post) (u, f, s) = Inr (u', f', s')"
    by (auto simp: style_loop_append split: sum.splits)
  then have "style_loop cm post (u, \<lparr>is_set = True, attr_value = Some v1\<rparr>, s) = Inr (u', f', s')"
    unfolding style_loop_fill_decl[OF assms(1)] by (simp add: assms(2))
  with assms(3) show ?thesis by (rule style_loop_fill_kept)
qed

lemma style_loop_last_stroke:
  assumes "decl_value ''stroke'' cm seg = Some v1" and "v1 \<noteq> ''none''"
    and "\<forall>x \<in> set post. decl_value ''stroke'' cm x = None \<or> decl_value ''stroke'' cm x = Some ''none''"
    and "style_loop cm (pre @ seg # post) st = Inr (u', f', s')"
  shows "s' = \<lparr>is_set = True, attr_value = Some v1\<rparr>"
proof -
  from assms(4) obtain u f s where
    "style_loop cm (seg # post) (u, f, s) = Inr (u', f', s')"
    by (auto simp: style_loop_append split: sum.splits)
  then have "style_loop cm post (u, f, \<lparr>is_set = True, attr_value = Some v1\<rparr>) = Inr (u', f', s')"
    unfolding style_loop_stroke_decl[OF assms(1)] by (simp add: assms(2))
  with assms(3) show ?thesis by (rule style_loop_stroke_kept)
qed

lemma decl_value_Nil: "decl_value name cm [] = None"
  by (simp add: decl_value_def)

lemma decl_value_key: "decl_value name cm seg = Some v \<Longrightarrow> cm v \<noteq> None"
  by (auto simp: decl_value_def split: list.splits if_splits)

lemma filter_alist_set_same:
  "filter (\<lambda>p. fst p \<noteq> k) (alist_set k v ps) = filter (\<lambda>p. fst p \<noteq> k) ps"
  by (induction ps) auto

lemma filter_alist_set_other:
  "k \<noteq> k' \<Longrightarrow> map_of xs k' \<noteq> None \<Longrightarrow>
     filter (\<lambda>p. fst p \<noteq> k) (alist_set k' v' (alist_set k v xs))
     = filter (\<lambda>p. fst p \<noteq> k) (alist_set k' v' xs)"
proof (induction xs)
  case Nil
  then show ?case by simp
next
  case (Cons p ps)
  show ?case
  proof (cases "fst p = k")
    case True
    with Cons.prems(1) show ?thesis by simp
  next
    case False
    show ?thesis
    proof (cases "fst p = k'")
      case True
      with False show ?thesis by (simp add: filter_alist_set_same)
    next
      case other: False
      with Cons.prems(2) have "map_of ps k' \<noteq> None" by (cases p) auto
      from Cons.IH[OF Cons.prems(1) this] False other show ?thesis by simp
    qed
  qed
qed

lemma attr_del_set_style:
  assumes "k \<noteq> ''style''" and "attr_get el ''style'' \<noteq> None"
  shows "attr_del k (attr_set ''style'' ns (attr_set k v el)) = attr_del k (attr_set ''style'' ns el)"
  using assms filter_alist_set_other[of k "''style''" "attrib el" ns v]
  by (simp add: attr_del_def attr_set_def attr_get_def)

lemma attr_del_commute: "attr_del k (attr_del k' el) = attr_del k' (attr_del k el)"
proof -
  have "filter (\<lambda>x. fst x \<noteq> k' \<and> fst x \<noteq> k) (attrib el)
        = filter (\<lambda>x. fst x \<noteq> k \<and> fst x \<noteq> k') (attrib el)"
    by (rule filter_cong) auto
  then show ?thesis by (simp add: attr_del_def)
qed

lemma class_set_cong: "attr_get a ''class'' = attr_get b ''class'' \<Longrightarrow> class_set a = class_set b"
  by (simp add: class_set_def)

lemma plain_attribute_set: "is_set a \<Longrightarrow> plain_attribute el name a = a"
  by (simp add: plain_attribute_def split: option.splits)

lemma plain_attribute_cong:
  "attr_get a name = attr_get b name \<Longrightarrow> plain_attribute a name x = plain_attribute b name x"
  by (simp add: plain_attribute_def)

lemma resolve_style_Some:
  assumes "attr_get el ''style'' = Some st"
  shows "resolve cm el =
     (case modify_style_attribute cm st Attribute Attribute of
        Inl e \<Rightarrow> Inl e
      | Inr (ns, f0, s0) \<Rightarrow>
          Inr (attr_set ''style'' ns el,
               plain_attribute (attr_set ''style'' ns el) ''fill'' f0,
               plain_attribute (attr_set ''style'' ns el) ''stroke'' s0))"
  using assms by (simp add: resolve_def split: sum.splits prod.splits)

lemma modify_style_attribute_loop:
  assumes "split_on CHR '';'' (strip st) = pre @ seg # post" and "decl_value name cm seg = Some v1"
    and "modify_style_attribute cm st f s = Inr (ns, f0, s0)"
  shows "\<exists>u. style_loop cm (pre @ seg # post) ([], f, s) = Inr (u, f0, s0)"
proof -
  have "strip st \<noteq> []"
  proof
    assume e: "strip st = []"
    with assms(1) have "pre @ seg # post = [[]]" by simp
    then have "seg = []" by (cases pre) auto
    with assms(2) show False by (simp add: decl_value_Nil)
  qed
  with assms(1,3) show ?thesis
    by (auto simp: modify_style_attribute_def split: sum.splits)
qed

lemma startswith_append_self: "startswith (p @ r) p"
  by (induction p) auto

lemma add_class_fst:
  "set (fst (add_class name m st)) =
     set (fst st) \<union> (case m of None \<Rightarrow> {} | Some color \<Rightarrow> {name @ ''-'' @ color})"
  by (cases m) (auto simp: add_class_def)

lemma add_class_Some:
  "add_class name (Some color) st = (List.insert (name @ ''-'' @ color) (fst st), attr_del name (snd st))"
  by (simp add: add_class_def)

lemma fill_precedence:
  assumes sty: "attr_get el ''style'' = Some st"
    and segs: "split_on CHR '';'' (strip st) = pre @ seg # post"
    and dv: "decl_value ''fill'' cm seg = Some v1" and ne: "v1 \<noteq> ''none''"
    and nm: "cm v1 = Some name"
    and post: "\<forall>x \<in> set post. decl_value ''fill'' cm x = None \<or> decl_value ''fill'' cm x = Some ''none''"
  shows "element_classes cm el =
     (case modify_style_attribute cm st Attribute Attribute of
        Inl e \<Rightarrow> Inl e
      | Inr (ns, f0, s0) \<Rightarrow>
          Inr (add_class ''stroke'' (matched cm (plain_attribute (attr_set ''style'' ns el) ''stroke'' s0))
                 (List.insert (''fill-'' @ name) (class_set el),
                  attr_del ''fill'' (attr_set ''style'' ns el))))"
proof (cases "modify_style_attribute cm st Attribute Attribute")
  case (Inl e)
  then show ?thesis by (simp add: element_classes_def resolve_style_Some[OF sty])
next
  case (Inr r)
  obtain ns f0 s0 where r: "r = (ns, f0, s0)" by (cases r)
  from modify_style_attribute_loop[OF segs dv Inr[unfolded r]] obtain u where
    "style_loop cm (pre @ seg # post) ([], Attribute, Attribute) = Inr (u, f0, s0)" by blast
  from style_loop_last_fill[OF dv ne post this] have f0: "f0 = \<lparr>is_set = True, attr_value = Some v1\<rparr>" .
  have pf: "plain_attribute (attr_set ''style'' ns el) ''fill'' f0 = f0"
    by (rule plain_attribute_set) (simp add: f0)
  have m: "matched cm f0 = Some name" by (simp add: matched_def f0 nm)
  have cs: "class_set (attr_set ''style'' ns el) = class_set el"
    by (rule class_set_cong) simp
  show ?thesis
    by (simp add: element_classes_def resolve_style_Some[OF sty] Inr r pf m cs add_class_Some)
qed

lemma stroke_precedence:
  assumes sty: "attr_get el ''style'' = Some st"
    and segs: "split_on CHR '';'' (strip st) = pre @ seg # post"
    and dv: "decl_value ''stroke'' cm seg = Some v1" and ne: "v1 \<noteq> ''none''"
    and nm: "cm v1 = Some name"
    and post: "\<forall>x \<in> set post. decl_value ''stroke'' cm x = None \<or> decl_value ''stroke'' cm x = Some ''none''"
  shows "element_classes cm el =
     (case modify_style_attribute cm st Attribute Attribute of
        Inl e \<Rightarrow> Inl e
      | Inr (ns, f0, s0) \<Rightarrow>
          Inr (add_class ''stroke'' (Some name)
                 (add_class ''fill'' (matched cm (plain_attribute (attr_set ''style'' ns el) ''fill'' f0))
                    (class_set el, attr_set ''style'' ns el))))"
proof (cases "modify_style_attribute cm st Attribute Attribute")
  case (Inl e)
  then show ?thesis by (simp add: element_classes_def resolve_style_Some[OF sty])
next
  case (Inr r)
  obtain ns f0 s0 where r: "r = (ns, f0, s0)" by (cases r)
  from modify_style_attribute_loop[OF segs dv Inr[unfolded r]] obtain u where
    "style_loop cm (pre @ seg # post) ([], Attribute, Attribute) = Inr (u, f0, s0)" by blast
  from style_loop_last_stroke[OF dv ne post this] have s0: "s0 = \<lparr>is_set = True, attr_value = Some v1\<rparr>" .
  have ps: "plain_attribute (attr_set ''style'' ns el) ''stroke'' s0 = s0"
    by (rule plain_attribute_set) (simp add: s0)
  have m: "matched cm s0 = Some name" by (simp add: matched_def s0 nm)
  have cs: "class_set (attr_set ''style'' ns el) = class_set el"
    by (rule class_set_cong) simp
  show ?thesis
    by (simp add: element_classes_def resolve_style_Some[OF sty] Inr r ps m cs)
qed

lemma fill_not_consulted:
  assumes sty: "attr_get el ''style'' = Some st"
    and segs: "split_on CHR '';'' (strip st) = pre @ seg # post"
    and dv: "decl_value ''fill'' cm seg = Some v1" and ne: "v1 \<noteq> ''none''"
    and nm: "cm v1 = Some name"
    and post: "\<forall>x \<in> set post. decl_value ''fill'' cm x = None \<or> decl_value ''fill'' cm x = Some ''none''"
  shows "element_classes cm (attr_set ''fill'' v2 el) = element_classes cm el"
proof -
  let ?el2 = "attr_set ''fill'' v2 el"
  have sty2: "attr_get ?el2 ''style'' = Some st" using sty by simp
  have a: "class_set ?el2 = class_set el" by (rule class_set_cong) simp
  have b: "attr_del ''fill'' (attr_set ''style'' ns ?el2) = attr_del ''fill'' (attr_set ''style'' ns el)" for ns
    by (rule attr_del_set_style) (simp_all add: sty)
  have c: "plain_attribute (attr_set ''style'' ns ?el2) ''stroke'' s0
           = plain_attribute (attr_set ''style'' ns el) ''stroke'' s0" for ns s0
    by (rule plain_attribute_cong) simp
  show ?thesis
    unfolding fill_precedence[OF sty2 segs dv ne nm post] fill_precedence[OF sty segs dv ne nm post]
    by (simp add: a b c split: sum.splits prod.splits)
qed

lemma stroke_not_consulted:
  assumes sty: "attr_get el ''style'' = Some st"
    and segs: "split_on CHR '';'' (strip st) = pre @ seg # post"
    and dv: "decl_value ''stroke'' cm seg = Some v1" and ne: "v1 \<noteq> ''none''"
    and nm: "cm v1 = Some name"
    and post: "\<forall>x \<in> set post. decl_value ''stroke'' cm x = None \<or> decl_value ''stroke'' cm x = Some ''none''"
  shows "element_classes cm (attr_set ''stroke'' v2 el) = element_classes cm el"
proof -
  let ?el2 = "attr_set ''stroke'' v2 el"
  have sty2: "attr_get ?el2 ''style'' = Some st" using sty by simp
  have a: "class_set ?el2 = class_set el" by (rule class_set_cong) simp
  have b: "attr_del ''stroke'' (attr_set ''style'' ns ?el2) = attr_del ''stroke'' (attr_set ''style'' ns el)" for ns
    by (rule attr_del_set_style) (simp_all add: sty)
  have c: "plain_attribute (attr_set ''style'' ns ?el2) ''fill'' f0
           = plain_attribute (attr_set ''style'' ns el) ''fill'' f0" for ns f0
    by (rule plain_attribute_cong) simp
  have d: "add_class ''stroke'' (Some name) (add_class ''fill'' m (cs, attr_set ''style'' ns ?el2))
           = add_class ''stroke'' (Some name) (add_class ''fill'' m (cs, attr_set ''style'' ns el))"
    for m cs ns
  proof (cases m)
    case None
    then show ?thesis by (simp add: add_class_Some add_class_None b)
  next
    case (Some color)
    have "attr_del ''stroke'' (attr_del ''fill'' (attr_set ''style'' ns ?el2))
          = attr_del ''stroke'' (attr_del ''fill'' (attr_set ''style'' ns el))"
      by (simp add: attr_del_commute[of "''stroke''" "''fill''"] b)
    with Some show ?thesis by (simp add: add_class_Some)
  qed
  show ?thesis
    unfolding stroke_precedence[OF sty2 segs dv ne nm post] stroke_precedence[OF sty segs dv ne nm post]
    by (simp add: a c d split: sum.splits prod.splits)
qed

lemma matched_Some: "matched cm a = Some color \<Longrightarrow> \<exists>v. cm v = Some color"
  by (auto simp: matched_def split: if_splits option.splits)

lemma replace_color_update:
  "replace_color_element ord cm el2 = replace_color_element ord cm (doc ! i) \<Longrightarrow>
   replace_color ord cm (doc[i := el2]) = replace_color ord cm doc"
proof (induction doc arbitrary: i)
  case Nil
  then show ?case by simp
next
  case (Cons el els)
  show ?case
  proof (cases i)
    case 0
    with Cons.prems show ?thesis by simp
  next
    case (Suc n)
    with Cons.prems have "replace_color_element ord cm el2 = replace_color_element ord cm (els ! n)"
      by simp
    from Cons.IH[OF this] Suc show ?thesis by (simp split: sum.splits)
  qed
qed

lemma written_class:
  assumes ord: "iteration_order ord"
    and e: "replace_color_element ord cm el = Inr el'"
    and c: "element_classes cm el = Inr (classes, el1)" and ne: "classes \<noteq> []"
  shows "\<exists>cs. attr_get el' ''class'' = Some (strip (join CHR '' '' cs)) \<and> set cs = set classes"
    and "k \<noteq> ''class'' \<Longrightarrow> attr_get el' k = attr_get el1 k"
proof -
  from e c have el': "el' = write_classes ord classes el1"
    by (simp add: replace_color_element_def)
  from ord have "set (ord classes) = set classes" by (simp add: iteration_order_def)
  with ne show "\<exists>cs. attr_get el' ''class'' = Some (strip (join CHR '' '' cs)) \<and> set cs = set classes"
    unfolding el' by (auto simp: attr_get_write_classes)
  show "k \<noteq> ''class'' \<Longrightarrow> attr_get el' k = attr_get el1 k"
    unfolding el' by (simp add: attr_get_write_classes)
qed

lemma element_fill_written:
  assumes ord: "iteration_order ord"
    and e: "replace_color_element ord cm el = Inr el'"
    and sty: "attr_get el ''style'' = Some st"
    and segs: "split_on CHR '';'' (strip st) = pre @ seg # post"
    and dv: "decl_value ''fill'' cm seg = Some v1" and ne: "v1 \<noteq> ''none''"
    and nm: "cm v1 = Some name"
    and post: "\<forall>x \<in> set post. decl_value ''fill'' cm x = None \<or> decl_value ''fill'' cm x = Some ''none''"
  shows "(\<exists>cs. attr_get el' ''class'' = Some (strip (join CHR '' '' cs))
            \<and> ''fill-'' @ name \<in> set cs
            \<and> (\<forall>c \<in> set cs. c \<in> set (class_set el) \<or> c = ''fill-'' @ name
                  \<or> (\<exists>v n. cm v = Some n \<and> c = ''stroke-'' @ n)))
       \<and> attr_get el' ''fill'' = None"
proof -
  from e obtain classes el1 where c: "element_classes cm el = Inr (classes, el1)"
    by (auto simp: replace_color_element_def split: sum.splits prod.splits)
  then have "\<exists>ns s0. add_class ''stroke''
            (matched cm (plain_attribute (attr_set ''style'' ns el) ''stroke'' s0))
            (List.insert (''fill-'' @ name) (class_set el), attr_del ''fill'' (attr_set ''style'' ns el))
          = (classes, el1)"
    unfolding fill_precedence[OF sty segs dv ne nm post]
    by (auto split: sum.splits prod.splits)
  then obtain ns s0 where eq: "add_class ''stroke''
            (matched cm (plain_attribute (attr_set ''style'' ns el) ''stroke'' s0))
            (List.insert (''fill-'' @ name) (class_set el), attr_del ''fill'' (attr_set ''style'' ns el))
          = (classes, el1)"
    by blast
  let ?m = "matched cm (plain_attribute (attr_set ''style'' ns el) ''stroke'' s0)"
  have cl: "classes = fst (add_class ''stroke'' ?m
            (List.insert (''fill-'' @ name) (class_set el), attr_del ''fill'' (attr_set ''style'' ns el)))"
    by (simp only: eq fst_conv)
  have e1: "el1 = snd (add_class ''stroke'' ?m
            (List.insert (''fill-'' @ name) (class_set el), attr_del ''fill'' (attr_set ''style'' ns el)))"
    by (simp only: eq snd_conv)
  have set_cl: "set classes = insert (''fill-'' @ name) (set (class_set el))
        \<union> (case ?m of None \<Rightarrow> {} | Some color \<Rightarrow> {''stroke'' @ ''-'' @ color})"
    unfolding cl add_class_fst by simp
  then have ne': "classes \<noteq> []" by auto
  from written_class(1)[OF ord e c ne'] obtain cs where
    w: "attr_get el' ''class'' = Some (strip (join CHR '' '' cs))" and s: "set cs = set classes"
    by blast
  have bound: "\<forall>c \<in> set cs. c \<in> set (class_set el) \<or> c = ''fill-'' @ name
                  \<or> (\<exists>v n. cm v = Some n \<and> c = ''stroke-'' @ n)"
  proof (cases ?m)
    case None
    with set_cl s show ?thesis by auto
  next
    case (Some color)
    from matched_Some[OF Some] obtain v where "cm v = Some color" by blast
    moreover from set_cl s Some
    have "set cs = insert (''stroke-'' @ color) (insert (''fill-'' @ name) (set (class_set el)))"
      by auto
    ultimately show ?thesis by auto
  qed
  from written_class(2)[OF ord e c ne', of "''fill''"] have "attr_get el' ''fill'' = attr_get el1 ''fill''"
    by simp
  also have "\<dots> = None" unfolding e1 by (simp add: add_class_attrs)
  finally have "attr_get el' ''fill'' = None" .
  moreover from s set_cl have "''fill-'' @ name \<in> set cs" by simp
  ultimately show ?thesis using w bound by blast
qed

lemma element_stroke_written:
  assumes ord: "iteration_order ord"
    and e: "replace_color_element ord cm el = Inr el'"
    and sty: "attr_get el ''style'' = Some st"
    and segs: "split_on CHR '';'' (strip st) = pre @ seg # post"
    and dv: "decl_value ''stroke'' cm seg = Some v1" and ne: "v1 \<noteq> ''none''"
    and nm: "cm v1 = Some name"
    and post: "\<forall>x \<in> set post. decl_value ''stroke'' cm x = None \<or> decl_value ''stroke'' cm x = Some ''none''"
  shows "(\<exists>cs. attr_get el' ''class'' = Some (strip (join CHR '' '' cs))
            \<and> ''stroke-'' @ name \<in> set cs
            \<and> (\<forall>c \<in> set cs. c \<in> set (class_set el) \<or> c = ''stroke-'' @ name
                  \<or> (\<exists>v n. cm v = Some n \<and> c = ''fill-'' @ n)))
       \<and> attr_get el' ''stroke'' = None"
proof -
  from e obtain classes el1 where c: "element_classes cm el = Inr (classes, el1)"
    by (auto simp: replace_color_element_def split: sum.splits prod.splits)
  then have "\<exists>ns f0. add_class ''stroke'' (Some name)
            (add_class ''fill'' (matched cm (plain_attribute (attr_set ''style'' ns el) ''fill'' f0))
               (class_set el, attr_set ''style'' ns el))
          = (classes, el1)"
    unfolding stroke_precedence[OF sty segs dv ne nm post]
    by (auto split: sum.splits prod.splits)
  then obtain ns f0 where eq: "add_class ''stroke'' (Some name)
            (add_class ''fill'' (matched cm (plain_attribute (attr_set ''style'' ns el) ''fill'' f0))
               (class_set el, attr_set ''style'' ns el))
          = (classes, el1)"
    by blast
  let ?m = "matched cm (plain_attribute (attr_set ''style'' ns el) ''fill'' f0)"
  have cl: "classes = fst (add_class ''stroke'' (Some name)
            (add_class ''fill'' ?m (class_set el, attr_set ''style'' ns el)))"
    by (simp only: eq fst_conv)
  have e1: "el1 = snd (add_class ''stroke'' (Some name)
            (add_class ''fill'' ?m (class_set el, attr_set ''style'' ns el)))"
    by (simp only: eq snd_conv)
  have set_cl: "set classes = insert (''stroke-'' @ name) (set (class_set el))
        \<union> (case ?m of None \<Rightarrow> {} | Some color \<Rightarrow> {''fill'' @ ''-'' @ color})"
    unfolding cl add_class_fst by auto
  then have ne': "classes \<noteq> []" by auto
  from written_class(1)[OF ord e c ne'] obtain cs where
    w: "attr_get el' ''class'' = Some (strip (join CHR '' '' cs))" and s: "set cs = set classes"
    by blast
  have bound: "\<forall>c \<in> set cs. c \<in> set (class_set el) \<or> c = ''stroke-'' @ name
                  \<or> (\<exists>v n. cm v = Some n \<and> c = ''fill-'' @ n)"
  proof (cases ?m)
    case None
    with set_cl s show ?thesis by auto
  next
    case (Some color)
    from matched_Some[OF Some] obtain v where "cm v = Some color" by blast
    moreover from set_cl s Some
    have "set cs = insert (''fill-'' @ color) (insert (''stroke-'' @ name) (set (class_set el)))"
      by auto
    ultimately show ?thesis by auto
  qed
  from written_class(2)[OF ord e c ne', of "''stroke''"] have "attr_get el' ''stroke'' = attr_get el1 ''stroke''"
    by simp
  also have "\<dots> = None" unfolding e1 by (simp add: add_class_Some)
  finally have "attr_get el' ''stroke'' = None" .
  moreover from s set_cl have "''stroke-'' @ name \<in> set cs" by simp
  ultimately show ?thesis using w bound by blast
qed




section \<open>Running the Style-Block Manager twice\<close>

text \<open>
  \<open>valid_name\<close>: a color name of the rule grammar, \<open>[a-zA-Z0-9]+\<close>. \<open>valid_color\<close>: a
  \<open>#\<close> and three or six hexadecimal digits. \<open>theme_ok\<close>: a theme table (distinct keys)
  of such names and values.
\<close>

definition valid_name :: "string \<Rightarrow> bool" where
  "valid_name n \<longleftrightarrow> n \<noteq> [] \<and> list_all is_alnum n"

definition valid_color :: "string \<Rightarrow> bool" where
  "valid_color v \<longleftrightarrow>
     (case v of
        [] \<Rightarrow> False
      | c # h \<Rightarrow> c = CHR ''#'' \<and> (length h = 3 \<or> length h = 6) \<and> list_all is_hex h)"

definition theme_ok :: "items \<Rightarrow> bool" where
  "theme_ok new_colors \<longleftrightarrow>
     distinct (map fst new_colors)
     \<and> list_all (\<lambda>p. valid_name (fst p) \<and> valid_color (snd p)) new_colors"

lemma lit_in_set: "lit p s = Some r \<Longrightarrow> set p \<subseteq> set s"
  by (auto dest: lit_Some)

lemma match_sub_None: "CHR 0x01 \<notin> set s \<Longrightarrow> match_sub rt n s = None"
proof (rule ccontr)
  assume no: "CHR 0x01 \<notin> set s" and "match_sub rt n s \<noteq> None"
  then obtain r where "match_sub rt n s = Some r" by auto
  then obtain s1 s2 where a: "any_char s = Some s1"
    and b: "lit (rt @ ''-'' @ n @ '' {'' @ [CHR 0x01] @ '':#'') s1 = Some s2"
    by (auto simp: match_sub_def Option.bind_eq_Some_conv)
  from lit_in_set[OF b] have "CHR 0x01 \<in> set s1" by auto
  with any_char_Some[OF a] no show False by auto
qed

lemma re_sub_id: "CHR 0x01 \<notin> set s \<Longrightarrow> re_sub rt n repl s = s"
proof (induction s)
  case Nil
  then show ?case by simp
next
  case (Cons c cs)
  from Cons.prems have "match_sub rt n (c # cs) = None" by (rule match_sub_None)
  with Cons show ?case by simp
qed

lemma match_css_rule_type:
  "match_css s = Some (t, n, r) \<Longrightarrow> t = ''fill'' \<or> t = ''stroke''"
  by (auto simp: match_css_def Let_def Option.bind_eq_Some_conv rule_type_alt_def
      split: if_splits)

lemma finditer_css_rule_type:
  "(t, n) \<in> set (finditer_css s) \<Longrightarrow> t = ''fill'' \<or> t = ''stroke''"
proof (induction "length s" arbitrary: s rule: less_induct)
  case less
  show ?case
  proof (cases s)
    case Nil
    with less.prems show ?thesis by simp
  next
    case (Cons c cs)
    show ?thesis
    proof (cases "match_css (c # cs)")
      case None
      with less.prems Cons have "(t, n) \<in> set (finditer_css cs)" by simp
      with less.hyps[of cs] Cons show ?thesis by simp
    next
      case (Some m)
      obtain t' n' r where m: "m = (t', n', r)" by (cases m)
      from Some m less.prems Cons have "(t, n) = (t', n') \<or> (t, n) \<in> set (finditer_css r)"
        by simp
      then show ?thesis
      proof
        assume "(t, n) = (t', n')"
        with match_css_rule_type[of "c # cs" t' n' r] Some m show ?thesis by simp
      next
        assume in_r: "(t, n) \<in> set (finditer_css r)"
        from match_css_length[of "c # cs" t' n' r] Some m Cons have "length r < length s" by simp
        from less.hyps[OF this in_r] show ?thesis .
      qed
    qed
  qed
qed

lemma not_backslash_alnum: "is_alnum c \<Longrightarrow> c \<noteq> CHR 0x5C"
  by (auto simp: is_alnum_def)

lemma not_backslash_hex: "is_hex c \<Longrightarrow> c \<noteq> CHR 0x5C"
  by (auto simp: is_hex_def)

lemma valid_name_chars: "valid_name n \<Longrightarrow> c \<in> set n \<Longrightarrow> is_alnum c"
  by (simp add: valid_name_def list_all_iff)

lemma valid_color_chars: "valid_color v \<Longrightarrow> c \<in> set v \<Longrightarrow> c = CHR ''#'' \<or> is_hex c"
  by (cases v) (auto simp: valid_color_def list_all_iff)

lemma rule_text_chars:
  assumes "t = ''fill'' \<or> t = ''stroke''" and "valid_name n" and "valid_color v"
    and "c \<in> set (rule_text t n v)"
  shows "c \<in> set '' .-{:;}#filstroke'' \<or> is_alnum c \<or> is_hex c"
  using assms valid_name_chars[OF assms(2)] valid_color_chars[OF assms(3)]
  by (auto simp: rule_text_def)

lemma rule_text_no_backslash:
  assumes "t = ''fill'' \<or> t = ''stroke''" and "valid_name n" and "valid_color v"
  shows "CHR 0x5C \<notin> set (rule_text t n v)"
proof
  assume "CHR 0x5C \<in> set (rule_text t n v)"
  from rule_text_chars[OF assms this] show False
    by (auto simp: is_alnum_def is_hex_def)
qed

lemma rule_text_no_soh:
  assumes "t = ''fill'' \<or> t = ''stroke''" and "valid_name n" and "valid_color v"
  shows "CHR 0x01 \<notin> set (rule_text t n v)"
proof
  assume "CHR 0x01 \<in> set (rule_text t n v)"
  from rule_text_chars[OF assms this] show False
    by (auto simp: is_alnum_def is_hex_def)
qed

lemma theme_ok_lookup:
  "theme_ok th \<Longrightarrow> map_of th n = Some v \<Longrightarrow> valid_name n \<and> valid_color v"
  by (auto simp: theme_ok_def list_all_iff dest: map_of_SomeD)

lemma update_rules_plain:
  assumes "theme_ok th" and "CHR 0x01 \<notin> set T"
    and "\<forall>(t, n) \<in> set ms. t = ''fill'' \<or> t = ''stroke''"
  shows "\<exists>u'. update_rules th ms (T, u) = Inr (T, u')
             \<and> set u' = set u \<union> (snd ` set ms \<inter> fst ` set th)"
  using assms(3)
proof (induction ms arbitrary: u)
  case Nil
  then show ?case by simp
next
  case (Cons m ms)
  obtain t n where m: "m = (t, n)" by (cases m)
  from Cons.prems m have t: "t = ''fill'' \<or> t = ''stroke''"
    and rest: "\<forall>(t, n) \<in> set ms. t = ''fill'' \<or> t = ''stroke''" by auto
  show ?case
  proof (cases "map_of th n")
    case None
    then have "n \<notin> fst ` set th" by (simp add: map_of_eq_None_iff)
    with Cons.IH[OF rest, of u] None show ?thesis by (auto simp: m)
  next
    case (Some v)
    from theme_ok_lookup[OF assms(1) Some] have vn: "valid_name n" and vc: "valid_color v"
      by simp_all
    have nb: "CHR 0x5C \<notin> set (rule_text t n v)" by (rule rule_text_no_backslash[OF t vn vc])
    have "n \<in> fst ` set th" using Some by (auto dest: map_of_SomeD intro: rev_image_eqI)
    with Cons.IH[OF rest, of "List.insert n u"] Some nb show ?thesis
      by (auto simp: m Let_def re_sub_id[OF assms(2)])
  qed
qed

lemma append_rules_eq:
  "append_rules th u T =
     T @ concat (map (\<lambda>p. new_rules (fst p) (snd p)) (filter (\<lambda>p. fst p \<notin> set u) th))"
  by (induction th arbitrary: T) auto

text \<open>No match of the rule pattern goes across a newline.\<close>

lemma startswith_nl:
  "CHR 0x0A \<notin> set p \<Longrightarrow> startswith (w @ CHR 0x0A # r) p = startswith w p"
  by (induction w p rule: startswith.induct) auto

lemma startswith_length: "startswith w p \<Longrightarrow> length p \<le> length w"
  by (induction w p rule: startswith.induct) auto

lemma lit_nl:
  "CHR 0x0A \<notin> set p \<Longrightarrow>
     lit p (w @ CHR 0x0A # r) = map_option (\<lambda>x. x @ CHR 0x0A # r) (lit p w)"
  by (auto simp: lit_def startswith_nl dest: startswith_length)

lemma any_char_nl:
  "any_char (w @ CHR 0x0A # r) = map_option (\<lambda>x. x @ CHR 0x0A # r) (any_char w)"
  by (cases w) (simp_all add: any_char_def)

lemma rule_type_alt_nl:
  "rule_type_alt (w @ CHR 0x0A # r)
   = map_option (\<lambda>p. (fst p, snd p @ CHR 0x0A # r)) (rule_type_alt w)"
proof -
  have f: "startswith (w @ CHR 0x0A # r) ''fill'' = startswith w ''fill''"
    by (rule startswith_nl) simp
  have s: "startswith (w @ CHR 0x0A # r) ''stroke'' = startswith w ''stroke''"
    by (rule startswith_nl) simp
  show ?thesis
    using startswith_length[of w "''fill''"] startswith_length[of w "''stroke''"]
    by (auto simp: rule_type_alt_def f s)
qed

lemma not_hex_nl: "\<not> is_hex (CHR 0x0A)"
  by (simp add: is_hex_def)

lemma not_alnum_nl: "\<not> is_alnum (CHR 0x0A)"
  by (simp add: is_alnum_def)

lemma hex3_nl:
  "hex3 (w @ CHR 0x0A # r) = map_option (\<lambda>x. x @ CHR 0x0A # r) (hex3 w)"
proof (cases "3 \<le> length w")
  case True
  then show ?thesis by (simp add: hex3_def)
next
  case False
  then have lw: "length w < 3" by simp
  then have "CHR 0x0A \<in> set (take 3 (w @ CHR 0x0A # r))" by (auto simp: take_Cons')
  then have "\<not> list_all is_hex (take 3 (w @ CHR 0x0A # r))"
    using not_hex_nl by (auto simp: list_all_iff)
  then have a: "hex3 (w @ CHR 0x0A # r) = None" by (simp add: hex3_def)
  from lw have "length (take 3 w) \<noteq> 3" by simp
  then have b: "hex3 w = None" by (simp only: hex3_def) simp
  show ?thesis by (simp add: a b)
qed

lemma hex_tail_nl:
  "hex_tail (w @ CHR 0x0A # r) = map_option (\<lambda>x. x @ CHR 0x0A # r) (hex_tail w)"
proof -
  have l: "lit '';}'' (x @ CHR 0x0A # r) = map_option (\<lambda>x. x @ CHR 0x0A # r) (lit '';}'' x)" for x
    by (rule lit_nl) simp
  show ?thesis
    by (auto simp: hex_tail_def hex3_nl l split: option.splits)
qed

lemma takeWhile_alnum_nl: "takeWhile is_alnum (w @ CHR 0x0A # r) = takeWhile is_alnum w"
  by (induction w) (simp_all add: not_alnum_nl)

lemma dropWhile_alnum_nl:
  "dropWhile is_alnum (w @ CHR 0x0A # r) = dropWhile is_alnum w @ CHR 0x0A # r"
  by (induction w) (simp_all add: not_alnum_nl)

lemma match_css_nl:
  "match_css (w @ CHR 0x0A # r)
   = map_option (\<lambda>m. (fst m, fst (snd m), snd (snd m) @ CHR 0x0A # r)) (match_css w)"
proof -
  have l1: "lit ''-'' (x @ CHR 0x0A # r) = map_option (\<lambda>x. x @ CHR 0x0A # r) (lit ''-'' x)" for x
    by (rule lit_nl) simp
  have l2: "lit '' {'' (x @ CHR 0x0A # r) = map_option (\<lambda>x. x @ CHR 0x0A # r) (lit '' {'' x)" for x
    by (rule lit_nl) simp
  have l3: "lit '':#'' (x @ CHR 0x0A # r) = map_option (\<lambda>x. x @ CHR 0x0A # r) (lit '':#'' x)" for x
    by (rule lit_nl) simp
  have l4: "lit ''fill'' (x @ CHR 0x0A # r) = map_option (\<lambda>x. x @ CHR 0x0A # r) (lit ''fill'' x)" for x
    by (rule lit_nl) simp
  have l5: "lit ''stroke'' (x @ CHR 0x0A # r) = map_option (\<lambda>x. x @ CHR 0x0A # r) (lit ''stroke'' x)" for x
    by (rule lit_nl) simp
  show ?thesis
  proof (cases "any_char w")
    case None
    then show ?thesis by (simp add: match_css_def any_char_nl)
  next
    case a: (Some s1)
    show ?thesis
    proof (cases "rule_type_alt s1")
      case None
      with a show ?thesis by (simp add: match_css_def any_char_nl rule_type_alt_nl)
    next
      case b: (Some ts)
      obtain t s2 where ts: "ts = (t, s2)" by (cases ts)
      from b ts have t: "t = ''fill'' \<or> t = ''stroke''"
        by (auto simp: rule_type_alt_def split: if_splits)
      show ?thesis
      proof (cases "lit ''-'' s2")
        case None
        with a b ts show ?thesis by (simp add: match_css_def any_char_nl rule_type_alt_nl l1)
      next
        case c: (Some s3)
        have lt: "lit t (x @ CHR 0x0A # r) = map_option (\<lambda>x. x @ CHR 0x0A # r) (lit t x)" for x
          using t l4 l5 by auto
        show ?thesis
          using a b ts c
          by (auto simp: match_css_def any_char_nl rule_type_alt_nl l1 l2 l3 lt hex_tail_nl
              takeWhile_alnum_nl dropWhile_alnum_nl Let_def Option.bind_eq_None_conv
              split: option.splits Option.bind_splits)
      qed
    qed
  qed
qed

lemma finditer_css_nl:
  "finditer_css (w @ CHR 0x0A # r) = finditer_css w @ finditer_css (CHR 0x0A # r)"
proof (induction "length w" arbitrary: w rule: less_induct)
  case less
  show ?case
  proof (cases w)
    case Nil
    then show ?thesis by simp
  next
    case (Cons c cs)
    show ?thesis
    proof (cases "match_css (c # cs)")
      case None
      then have "match_css ((c # cs) @ CHR 0x0A # r) = None"
        by (simp only: match_css_nl option.map)
      with None less.hyps[of cs] Cons show ?thesis by simp
    next
      case (Some m)
      obtain t n x where m: "m = (t, n, x)" by (cases m)
      from Some m have "match_css ((c # cs) @ CHR 0x0A # r) = Some (t, n, x @ CHR 0x0A # r)"
        by (simp only: match_css_nl option.map fst_conv snd_conv)
      moreover from match_css_length[of "c # cs" t n x] Some m Cons have "length x < length w"
        by simp
      ultimately show ?thesis
        using less.hyps[of x] Some m Cons by simp
    qed
  qed
qed

text \<open>The rules that the Style-Block Manager appends are rules that it finds again.\<close>

lemma lit_append: "lit p (p @ r) = Some r"
  by (simp add: lit_def startswith_append_self)

lemma takeWhile_name: "valid_name n \<Longrightarrow> takeWhile is_alnum (n @ CHR '' '' # x) = n"
  by (simp add: valid_name_def list_all_iff is_alnum_def takeWhile_append)

lemma dropWhile_name: "valid_name n \<Longrightarrow> dropWhile is_alnum (n @ CHR '' '' # x) = CHR '' '' # x"
  by (simp add: valid_name_def list_all_iff is_alnum_def dropWhile_append)

lemma hex3_three: "length h = 3 \<Longrightarrow> list_all is_hex h \<Longrightarrow> hex3 (h @ x) = Some x"
  by (simp add: hex3_def)

lemma hex3_semicolon: "hex3 (CHR '';'' # x) = None"
proof -
  have "\<not> is_hex CHR '';''" by (simp add: is_hex_def)
  then have "\<not> list_all is_hex (take 3 (CHR '';'' # x))" by (simp add: take_Cons')
  then show ?thesis by (simp add: hex3_def)
qed

lemma hex_tail_color:
  assumes "list_all is_hex h" and "length h = 3 \<or> length h = 6"
  shows "hex_tail (h @ '';}'' @ rest) = Some rest"
  using assms(2)
proof
  assume "length h = 3"
  from hex3_three[OF this assms(1)] have "hex3 (h @ '';}'' @ rest) = Some ('';}'' @ rest)" .
  moreover have "hex3 ('';}'' @ rest) = None" using hex3_semicolon by simp
  moreover have "lit '';}'' ('';}'' @ rest) = Some rest" by (rule lit_append)
  ultimately show ?thesis by (simp add: hex_tail_def)
next
  assume l: "length h = 6"
  let ?a = "take 3 h" and ?b = "drop 3 h"
  have h: "h = ?a @ ?b" by simp
  from l have la: "length ?a = 3" and lb: "length ?b = 3" by simp_all
  from assms(1) have ha: "list_all is_hex ?a" and hb: "list_all is_hex ?b"
    by (auto simp: list_all_iff dest: in_set_takeD in_set_dropD)
  have "hex3 (?a @ (?b @ '';}'' @ rest)) = Some (?b @ '';}'' @ rest)"
    by (rule hex3_three[OF la ha])
  then have 1: "hex3 (h @ '';}'' @ rest) = Some (?b @ '';}'' @ rest)"
    by (metis append.assoc h)
  have 2: "hex3 (?b @ '';}'' @ rest) = Some ('';}'' @ rest)"
    by (rule hex3_three[OF lb hb])
  have 3: "lit '';}'' ('';}'' @ rest) = Some rest" by (rule lit_append)
  show ?thesis by (simp only: hex_tail_def 1 2 3 option.case)
qed

lemma match_rule:
  assumes t: "t = ''fill'' \<or> t = ''stroke''" and n: "valid_name n" and v: "valid_color v"
  shows "match_css (rule_text t n v @ rest) = Some (t, n, rest)"
proof -
  from v obtain h where vh: "v = CHR ''#'' # h" and hx: "list_all is_hex h"
    and hl: "length h = 3 \<or> length h = 6"
    by (cases v) (auto simp: valid_color_def)
  let ?s7 = "h @ '';}'' @ rest"
  let ?s6 = "'':#'' @ ?s7"
  let ?s5 = "t @ ?s6"
  let ?s4 = "'' {'' @ ?s5"
  let ?s3 = "n @ ?s4"
  let ?s2 = "''-'' @ ?s3"
  let ?s1 = "t @ ?s2"
  have s: "rule_text t n v @ rest = CHR ''.'' # ?s1" by (simp add: rule_text_def vh)
  have a: "any_char (CHR ''.'' # ?s1) = Some ?s1" by (simp add: any_char_def)
  have b: "rule_type_alt ?s1 = Some (t, ?s2)"
    using t by (auto simp: rule_type_alt_def)
  have c: "lit ''-'' ?s2 = Some ?s3" by (rule lit_append)
  have d: "takeWhile is_alnum ?s3 = n" using takeWhile_name[OF n] by simp
  have e: "dropWhile is_alnum ?s3 = ?s4" using dropWhile_name[OF n] by simp
  have f: "lit '' {'' ?s4 = Some ?s5" by (rule lit_append)
  have g: "lit t ?s5 = Some ?s6" by (rule lit_append)
  have i: "lit '':#'' ?s6 = Some ?s7" by (rule lit_append)
  have j: "hex_tail ?s7 = Some rest" by (rule hex_tail_color[OF hx hl])
  from n have ne: "n \<noteq> []" by (simp add: valid_name_def)
  show ?thesis
    unfolding s match_css_def
    by (simp only: a b c d e f g i j ne Option.bind.simps Let_def prod.case if_False)
qed

lemma skip_indent:
  "finditer_css (CHR 0x0A # ''        '' @ CHR ''.'' # x) = finditer_css (CHR ''.'' # x)"
  by (simp add: match_css_def any_char_def rule_type_alt_def)

lemma new_rules_eq:
  "new_rules n v @ rest =
     CHR 0x0A # ''        '' @ (rule_text ''fill'' n v
       @ (CHR 0x0A # ''        '' @ (rule_text ''stroke'' n v @ rest)))"
  by (simp add: new_rules_def rule_text_def)

lemma rule_text_dot: "rule_text t n v @ rest = CHR ''.'' # tl (rule_text t n v @ rest)"
  by (simp add: rule_text_def)

lemma finditer_css_match:
  assumes "match_css s = Some (t, n, r)"
  shows "finditer_css s = (t, n) # finditer_css r"
proof (cases s)
  case Nil
  with assms show ?thesis by (simp add: match_css_def any_char_def)
next
  case (Cons c cs)
  with assms show ?thesis by simp
qed

lemma finditer_css_rule:
  assumes t: "t = ''fill'' \<or> t = ''stroke''" and n: "valid_name n" and v: "valid_color v"
  shows "finditer_css (CHR 0x0A # ''        '' @ (rule_text t n v @ rest)) = (t, n) # finditer_css rest"
proof -
  have "finditer_css (CHR 0x0A # ''        '' @ (rule_text t n v @ rest))
        = finditer_css (rule_text t n v @ rest)"
    by (subst rule_text_dot, subst skip_indent, subst rule_text_dot[symmetric]) (rule refl)
  also have "\<dots> = (t, n) # finditer_css rest"
    by (rule finditer_css_match[OF match_rule[OF t n v]])
  finally show ?thesis .
qed

lemma finditer_css_new_rules:
  assumes "valid_name n" and "valid_color v"
  shows "finditer_css (new_rules n v @ rest) = (''fill'', n) # (''stroke'', n) # finditer_css rest"
  unfolding new_rules_eq
  by (simp only: finditer_css_rule[OF _ assms] simp_thms)

lemma finditer_css_appended:
  "list_all (\<lambda>p. valid_name (fst p) \<and> valid_color (snd p)) ps \<Longrightarrow>
     finditer_css (concat (map (\<lambda>p. new_rules (fst p) (snd p)) ps))
     = concat (map (\<lambda>p. [(''fill'', fst p), (''stroke'', fst p)]) ps)"
proof (induction ps)
  case Nil
  then show ?case by simp
next
  case (Cons p ps)
  then have n: "valid_name (fst p)" and v: "valid_color (snd p)"
    and IH: "finditer_css (concat (map (\<lambda>p. new_rules (fst p) (snd p)) ps))
             = concat (map (\<lambda>p. [(''fill'', fst p), (''stroke'', fst p)]) ps)"
    by simp_all
  show ?case
    by (simp only: list.map concat.simps finditer_css_new_rules[OF n v] IH) simp
qed

lemma appended_starts_with_newline:
  "concat (map (\<lambda>p. new_rules (fst p) (snd p)) ps) = []
   \<or> (\<exists>r. concat (map (\<lambda>p. new_rules (fst p) (snd p)) ps) = CHR 0x0A # r)"
  by (cases ps) (simp_all add: new_rules_def)

lemma finditer_css_append_block:
  "A = [] \<or> (\<exists>r. A = CHR 0x0A # r) \<Longrightarrow> finditer_css (T @ A) = finditer_css T @ finditer_css A"
  by (auto simp: finditer_css_nl)

lemma finditer_css_with_appended:
  "finditer_css (T @ concat (map (\<lambda>p. new_rules (fst p) (snd p)) ps))
   = finditer_css T @ finditer_css (concat (map (\<lambda>p. new_rules (fst p) (snd p)) ps))"
  by (rule finditer_css_append_block[OF appended_starts_with_newline])

lemma fill_pair_member:
  "p \<in> set ps \<Longrightarrow> (''fill'', fst p) \<in> set (concat (map (\<lambda>p. [(''fill'', fst p), (''stroke'', fst p)]) ps))"
  by (induction ps) auto

lemma new_rules_no_soh:
  assumes "valid_name n" and "valid_color v"
  shows "CHR 0x01 \<notin> set (new_rules n v)"
proof -
  have "set (new_rules n v) = set (new_rules n v @ [])" by simp
  also have "\<dots> \<subseteq> {CHR 0x0A, CHR '' ''} \<union> set (rule_text ''fill'' n v) \<union> set (rule_text ''stroke'' n v)"
    unfolding new_rules_eq by auto
  finally show ?thesis
    using rule_text_no_soh[OF _ assms, of "''fill''"] rule_text_no_soh[OF _ assms, of "''stroke''"]
    by auto
qed

lemma appended_no_soh:
  "list_all (\<lambda>p. valid_name (fst p) \<and> valid_color (snd p)) ps \<Longrightarrow>
     CHR 0x01 \<notin> set (concat (map (\<lambda>p. new_rules (fst p) (snd p)) ps))"
  by (induction ps) (auto simp: new_rules_no_soh)

lemma style_text_plain:
  assumes "theme_ok th" and "CHR 0x01 \<notin> set T"
  shows "\<exists>u. style_text th T
              = Inr (T @ concat (map (\<lambda>p. new_rules (fst p) (snd p))
                                  (filter (\<lambda>p. fst p \<notin> set u) th)))
            \<and> set u = snd ` set (finditer_css T) \<inter> fst ` set th"
proof -
  have "\<forall>(t, n) \<in> set (finditer_css T). t = ''fill'' \<or> t = ''stroke''"
    using finditer_css_rule_type by auto
  from update_rules_plain[OF assms this, of "[]"] obtain u where
    r: "update_rules th (finditer_css T) (T, []) = Inr (T, u)"
    and u: "set u = snd ` set (finditer_css T) \<inter> fst ` set th"
    by auto
  have "style_text th T
        = Inr (T @ concat (map (\<lambda>p. new_rules (fst p) (snd p)) (filter (\<lambda>p. fst p \<notin> set u) th)))"
    by (simp only: style_text_def r append_rules_eq sum.case prod.case)
  with u show ?thesis by blast
qed

lemma style_text_twice:
  assumes ok: "theme_ok th" and T: "CHR 0x01 \<notin> set T"
  shows "\<exists>T1. style_text th T = Inr T1 \<and> style_text th T1 = Inr T1 \<and> CHR 0x01 \<notin> set T1"
proof -
  from style_text_plain[OF ok T] obtain u where
    run1: "style_text th T
           = Inr (T @ concat (map (\<lambda>p. new_rules (fst p) (snd p)) (filter (\<lambda>p. fst p \<notin> set u) th)))"
    and u: "set u = snd ` set (finditer_css T) \<inter> fst ` set th"
    by blast
  let ?ps = "filter (\<lambda>p. fst p \<notin> set u) th"
  let ?A = "concat (map (\<lambda>p. new_rules (fst p) (snd p)) ?ps)"
  let ?T1 = "T @ ?A"
  from ok have valid: "list_all (\<lambda>p. valid_name (fst p) \<and> valid_color (snd p)) ?ps"
    by (auto simp: theme_ok_def list_all_iff)
  have T1: "CHR 0x01 \<notin> set ?T1" using T appended_no_soh[OF valid] by simp
  from style_text_plain[OF ok T1] obtain u2 where
    run2: "style_text th ?T1
           = Inr (?T1 @ concat (map (\<lambda>p. new_rules (fst p) (snd p)) (filter (\<lambda>p. fst p \<notin> set u2) th)))"
    and u2: "set u2 = snd ` set (finditer_css ?T1) \<inter> fst ` set th"
    by blast
  have found: "finditer_css ?T1
               = finditer_css T @ concat (map (\<lambda>p. [(''fill'', fst p), (''stroke'', fst p)]) ?ps)"
    by (simp only: finditer_css_with_appended finditer_css_appended[OF valid])
  have "fst p \<in> set u2" if p: "p \<in> set th" for p
  proof (cases "fst p \<in> set u")
    case True
    with u have "fst p \<in> snd ` set (finditer_css T)" by simp
    then have "fst p \<in> snd ` set (finditer_css ?T1)" unfolding found by auto
    with p u2 show ?thesis by auto
  next
    case False
    with p have "p \<in> set ?ps" by simp
    from fill_pair_member[OF this]
    have "(''fill'', fst p) \<in> set (finditer_css ?T1)" unfolding found set_append by (rule UnI2)
    then have "fst p \<in> snd ` set (finditer_css ?T1)" by force
    with p u2 show ?thesis by auto
  qed
  then have "filter (\<lambda>p. fst p \<notin> set u2) th = []" by (auto simp: filter_empty_conv)
  with run2 have "style_text th ?T1 = Inr ?T1" by simp
  with run1 T1 show ?thesis by blast
qed

lemma first_index_update:
  "k < length xs \<Longrightarrow> P y = P (xs ! k) \<Longrightarrow> first_index P (xs[k := y]) = first_index P xs"
proof (induction xs arbitrary: k)
  case Nil
  then show ?case by simp
next
  case (Cons x xs)
  then show ?case by (cases k) auto
qed

text \<open>
  C3 (as amended). The theme table has names of the rule grammar (\<open>[a-zA-Z0-9]+\<close>) and
  values that are a \<open>#\<close> and three or six hexadecimal digits, and no text of the tree
  holds the character with code 1 (which no XML document can carry). Then the
  Style-Block Manager succeeds on the tree, and a second run with the same theme table
  gives back the tree of the first run: the text of the style element is the same.
\<close>

theorem C3_second_run_identical:
  assumes ne: "doc \<noteq> []" and ok: "theme_ok new_colors"
    and soh: "\<forall>el \<in> set doc. CHR 0x01 \<notin> set (py_str (el_text el))"
  shows "\<exists>doc1. update_svg_style doc new_colors = Inr doc1
               \<and> update_svg_style doc1 new_colors = Inr doc1"
proof -
  from ne obtain root rest where doc: "doc = root # rest" by (cases doc) auto
  let ?tag = "namespace_uri (tag root) @ ''style''"
  let ?P = "\<lambda>el. depth el = 1 \<and> tag el = ?tag"
  show ?thesis
  proof (cases "first_index ?P rest")
    case None
    let ?new = "\<lparr>tag = ?tag, attrib = [(''type'', ''text/css'')], el_text = Some [], depth = 1\<rparr>"
    have g: "get_style_element doc = (1, root # ?new # rest)"
      using None by (simp add: get_style_element_def find_child_def doc Let_def)
    have "CHR 0x01 \<notin> set []" by simp
    from style_text_twice[OF ok this] obtain T1 where
      r1: "style_text new_colors [] = Inr T1" and r2: "style_text new_colors T1 = Inr T1"
      by blast
    let ?doc1 = "root # ?new\<lparr>el_text := Some T1\<rparr> # rest"
    have u1: "update_svg_style doc new_colors = Inr ?doc1"
      using g r1 by (simp add: update_svg_style_def py_str_def)
    have g1: "get_style_element ?doc1 = (1, ?doc1)"
      by (simp add: get_style_element_def find_child_def Let_def)
    have u2: "update_svg_style ?doc1 new_colors = Inr ?doc1"
      using g1 r2 by (simp add: update_svg_style_def py_str_def)
    from u1 u2 show ?thesis by blast
  next
    case (Some k)
    from first_index_Some[OF Some] have k: "k < length rest" and Pk: "?P (rest ! k)" by simp_all
    have g: "get_style_element doc = (Suc k, doc)"
      using Some by (simp add: get_style_element_def find_child_def doc Let_def)
    let ?T = "py_str (el_text (rest ! k))"
    from k have "rest ! k \<in> set doc" by (simp add: doc)
    with soh have "CHR 0x01 \<notin> set ?T" by blast
    from style_text_twice[OF ok this] obtain T1 where
      r1: "style_text new_colors ?T = Inr T1" and r2: "style_text new_colors T1 = Inr T1"
      by blast
    let ?el = "(rest ! k)\<lparr>el_text := Some T1\<rparr>"
    let ?doc1 = "root # rest[k := ?el]"
    have u1: "update_svg_style doc new_colors = Inr ?doc1"
      using g r1 by (simp add: update_svg_style_def doc)
    have "first_index ?P (rest[k := ?el]) = first_index ?P rest"
      by (rule first_index_update[OF k]) simp
    with Some have g1: "get_style_element ?doc1 = (Suc k, ?doc1)"
      by (simp add: get_style_element_def find_child_def Let_def)
    have "?doc1 ! Suc k = ?el" using k by simp
    then have u2: "update_svg_style ?doc1 new_colors = Inr ?doc1"
      using k g1 r2 by (simp add: update_svg_style_def py_str_def)
    from u1 u2 show ?thesis by blast
  qed
qed

theorem C3_second_run_identical_witness:
  "update_svg_style
     [\<lparr>tag = ''svg'', attrib = [], el_text = None, depth = 0\<rparr>,
      \<lparr>tag = ''style'', attrib = [], el_text = Some ''.fill-red {fill:#000000;}'', depth = 1\<rparr>]
     [(''red'', ''#ff0000''), (''blue'', ''#0000ff'')]
   = Inr
     [\<lparr>tag = ''svg'', attrib = [], el_text = None, depth = 0\<rparr>,
      \<lparr>tag = ''style'', attrib = [],
        el_text = Some (''.fill-red {fill:#000000;}'' @ new_rules ''blue'' ''#0000ff''), depth = 1\<rparr>]
   \<and> update_svg_style
     [\<lparr>tag = ''svg'', attrib = [], el_text = None, depth = 0\<rparr>,
      \<lparr>tag = ''style'', attrib = [],
        el_text = Some (''.fill-red {fill:#000000;}'' @ new_rules ''blue'' ''#0000ff''), depth = 1\<rparr>]
     [(''red'', ''#ff0000''), (''blue'', ''#0000ff'')]
   = Inr
     [\<lparr>tag = ''svg'', attrib = [], el_text = None, depth = 0\<rparr>,
      \<lparr>tag = ''style'', attrib = [],
        el_text = Some (''.fill-red {fill:#000000;}'' @ new_rules ''blue'' ''#0000ff''), depth = 1\<rparr>]"
proof -
  let ?th = "[(''red'', ''#ff0000''), (''blue'', ''#0000ff'')]"
  let ?doc = "[\<lparr>tag = ''svg'', attrib = [], el_text = None, depth = 0\<rparr>,
      \<lparr>tag = ''style'', attrib = [], el_text = Some ''.fill-red {fill:#000000;}'', depth = 1\<rparr>]"
  let ?doc1 = "[\<lparr>tag = ''svg'', attrib = [], el_text = None, depth = 0\<rparr>,
      \<lparr>tag = ''style'', attrib = [],
        el_text = Some (''.fill-red {fill:#000000;}'' @ new_rules ''blue'' ''#0000ff''), depth = 1\<rparr>]"
  have ne: "?doc \<noteq> []" by simp
  have ok: "theme_ok ?th" by code_simp
  have soh: "\<forall>el \<in> set ?doc. CHR 0x01 \<notin> set (py_str (el_text el))" by code_simp
  have run: "update_svg_style ?doc ?th = Inr ?doc1" by code_simp
  from C3_second_run_identical[OF ne ok soh] obtain d where
    "update_svg_style ?doc ?th = Inr d" and "update_svg_style d ?th = Inr d" by blast
  with run show ?thesis by simp
qed

text \<open>
  C3 as stated fails for a theme name outside the rule grammar: the rules appended for
  \<open>dark_red\<close> are not found again by the pattern, whose names are \<open>[a-zA-Z0-9]+\<close>, so
  the second run appends them a second time.
\<close>

theorem C3_underscore_name_counterexample:
  "update_svg_style [\<lparr>tag = ''svg'', attrib = [], el_text = None, depth = 0\<rparr>]
     [(''dark_red'', ''#ff0000'')]
   = Inr [\<lparr>tag = ''svg'', attrib = [], el_text = None, depth = 0\<rparr>,
          \<lparr>tag = ''style'', attrib = [(''type'', ''text/css'')],
            el_text = Some (new_rules ''dark_red'' ''#ff0000''), depth = 1\<rparr>]
   \<and> update_svg_style
        [\<lparr>tag = ''svg'', attrib = [], el_text = None, depth = 0\<rparr>,
         \<lparr>tag = ''style'', attrib = [(''type'', ''text/css'')],
           el_text = Some (new_rules ''dark_red'' ''#ff0000''), depth = 1\<rparr>]
        [(''dark_red'', ''#ff0000'')]
     = Inr [\<lparr>tag = ''svg'', attrib = [], el_text = None, depth = 0\<rparr>,
            \<lparr>tag = ''style'', attrib = [(''type'', ''text/css'')],
              el_text = Some (new_rules ''dark_red'' ''#ff0000'' @ new_rules ''dark_red'' ''#ff0000''),
              depth = 1\<rparr>]
   \<and> new_rules ''dark_red'' ''#ff0000'' @ new_rules ''dark_red'' ''#ff0000''
       \<noteq> new_rules ''dark_red'' ''#ff0000''"
  by code_simp

end
